theory Spec2Isabelle
  imports Complex_Main "HOL-Library.Word" "HOL-Library.AList"
begin

section \<open>Strings\<close>

text \<open>
  A JavaScript string is a sequence of 16-bit UTF-16 code units: \<open>length\<close>,
  \<open>substring\<close>, \<open>trim\<close> and a regular expression without the \<open>u\<close> flag all
  work on code units.
\<close>

type_synonym jschar = "16 word"
type_synonym jsstring = "jschar list"

definition js :: "string \<Rightarrow> jsstring" where
  "js s = map of_char s"

section \<open>Request throttle (src/lib/rate-limit.ts)\<close>

text \<open>
  Every call of \<open>check\<close> reads the clock once; the reading is the argument \<open>now\<close>,
  the integer milliseconds of \<open>Date.now()\<close>. A request count starts at 1 and is
  incremented, so it is an integer. The configured maximum is whatever number the
  constructor is given, fractional ones included, so it is a real, and so is the
  \<open>remaining\<close> that \<open>check\<close> computes from it. The window is a number of
  milliseconds; it and the clock readings are taken as integers (below \<open>2^53\<close>, where
  the additions of the code are exact).
\<close>

record RateLimitEntry =
  count :: int
  resetTime :: int
  lastSeen :: int

record RateLimitConfig =
  window :: int
  maxRequests :: real

record CheckResult =
  allowed :: bool
  remaining :: real
  resetTime' :: int

type_synonym RateLimitStore = "jsstring \<rightharpoonup> RateLimitEntry"

definition DEFAULT_WINDOW :: int where
  "DEFAULT_WINDOW = 60 * 1000"

definition DEFAULT_MAX_REQUESTS :: real where
  "DEFAULT_MAX_REQUESTS = 5"

text \<open>
  The constructor: \<open>config.window || DEFAULT_WINDOW\<close> takes the default when the
  field is missing or zero.
\<close>

definition RateLimiter :: "int option \<Rightarrow> real option \<Rightarrow> RateLimitConfig" where
  "RateLimiter w m =
     \<lparr> window = (case w of None \<Rightarrow> DEFAULT_WINDOW
                            | Some x \<Rightarrow> if x = 0 then DEFAULT_WINDOW else x),
       maxRequests = (case m of None \<Rightarrow> DEFAULT_MAX_REQUESTS
                            | Some x \<Rightarrow> if x = 0 then DEFAULT_MAX_REQUESTS else x) \<rparr>"

definition contactFormLimiter :: RateLimitConfig where
  "contactFormLimiter = RateLimiter (Some (60 * 1000)) (Some 3)"

definition apiLimiter :: RateLimitConfig where
  "apiLimiter = RateLimiter (Some (60 * 1000)) (Some 10)"

definition authLimiter :: RateLimitConfig where
  "authLimiter = RateLimiter (Some (15 * 60 * 1000)) (Some 5)"

text \<open>\<open>cleanup\<close> deletes every entry not seen for twice the window.\<close>

definition cleanup :: "RateLimitConfig \<Rightarrow> int \<Rightarrow> RateLimitStore \<Rightarrow> RateLimitStore" where
  "cleanup cfg now st =
     (let staleThreshold = now - window cfg * 2
      in (\<lambda>key. case st key of
                  None \<Rightarrow> None
                | Some entry \<Rightarrow> if lastSeen entry < staleThreshold then None else Some entry))"

text \<open>The branch of \<open>check\<close> for a first request or an expired window.\<close>

definition newWindow ::
  "RateLimitConfig \<Rightarrow> jsstring \<Rightarrow> int \<Rightarrow> RateLimitStore \<Rightarrow> CheckResult \<times> RateLimitStore" where
  "newWindow cfg identifier now st =
     (let newEntry = \<lparr> count = 1, resetTime = now + window cfg, lastSeen = now \<rparr>
      in (\<lparr> allowed = True, remaining = maxRequests cfg - 1, resetTime' = resetTime newEntry \<rparr>,
          cleanup cfg now (st(identifier \<mapsto> newEntry))))"

definition check ::
  "RateLimitConfig \<Rightarrow> jsstring \<Rightarrow> int \<Rightarrow> RateLimitStore \<Rightarrow> CheckResult \<times> RateLimitStore" where
  "check cfg identifier now st =
     (case st identifier of
        None \<Rightarrow> newWindow cfg identifier now st
      | Some entry \<Rightarrow>
          if now > resetTime entry then newWindow cfg identifier now st
          else if real_of_int (count entry) \<ge> maxRequests cfg then
            (\<lparr> allowed = False, remaining = 0, resetTime' = resetTime entry \<rparr>, st)
          else
            (let entry' = entry\<lparr> count := count entry + 1, lastSeen := now \<rparr>
             in (\<lparr> allowed = True, remaining = maxRequests cfg - real_of_int (count entry'),
                   resetTime' = resetTime entry' \<rparr>,
                 st(identifier \<mapsto> entry'))))"

text \<open>A sequence of \<open>check\<close> calls, each with its identifier and clock reading.\<close>

fun checks ::
  "RateLimitConfig \<Rightarrow> (jsstring \<times> int) list \<Rightarrow> RateLimitStore \<Rightarrow> CheckResult list \<times> RateLimitStore" where
  "checks cfg [] st = ([], st)"
| "checks cfg (c # cs) st =
     (let r = check cfg (fst c) (snd c) st;
          rs = checks cfg cs (snd r)
      in (fst r # fst rs, snd rs))"


text \<open>
  Invariants of the store. \<open>count_ok\<close>: every count lies between 1 and the
  configured maximum. \<open>entries_ok\<close>: an entry was last seen no earlier than its
  window began and no later than the current clock reading \<open>t\<close>.
\<close>

definition count_ok :: "RateLimitConfig \<Rightarrow> RateLimitStore \<Rightarrow> bool" where
  "count_ok cfg st =
     (\<forall>k e. st k = Some e \<longrightarrow> 1 \<le> count e \<and> real_of_int (count e) \<le> maxRequests cfg)"

definition entries_ok :: "RateLimitConfig \<Rightarrow> int \<Rightarrow> RateLimitStore \<Rightarrow> bool" where
  "entries_ok cfg t st =
     (\<forall>k e. st k = Some e \<longrightarrow> resetTime e \<le> lastSeen e + window cfg \<and> lastSeen e \<le> t)"

section \<open>Anti-forgery tokens (src/lib/csrf.ts)\<close>

type_synonym byte = "8 word"

text \<open>
  \<open>Buffer.toString('hex')\<close>: two lowercase hexadecimal digits for each byte.
\<close>

definition hexDigit :: "nat \<Rightarrow> jschar" where
  "hexDigit n = (if n < 10 then of_nat (48 + n) else of_nat (97 + (n - 10)))"

definition toHex :: "byte list \<Rightarrow> jsstring" where
  "toHex bs = concat (map (\<lambda>b. [hexDigit (unat b div 16), hexDigit (unat b mod 16)]) bs)"

text \<open>
  \<open>Buffer.from(string)\<close> encodes the string as UTF-8: a surrogate pair is one code
  point of four bytes, a lone surrogate becomes U+FFFD.
\<close>

fun codePoints :: "jsstring \<Rightarrow> nat list" where
  "codePoints [] = []"
| "codePoints [c] =
     (if 0xD800 \<le> c \<and> c \<le> 0xDFFF then [0xFFFD] else [unat c])"
| "codePoints (c # d # cs) =
     (if 0xD800 \<le> c \<and> c \<le> 0xDBFF then
        (if 0xDC00 \<le> d \<and> d \<le> 0xDFFF
         then (0x10000 + (unat c - 0xD800) * 0x400 + (unat d - 0xDC00)) # codePoints cs
         else 0xFFFD # codePoints (d # cs))
      else if 0xDC00 \<le> c \<and> c \<le> 0xDFFF then 0xFFFD # codePoints (d # cs)
      else unat c # codePoints (d # cs))"

definition utf8CodePoint :: "nat \<Rightarrow> byte list" where
  "utf8CodePoint n =
     (if n < 0x80 then [of_nat n]
      else if n < 0x800 then [of_nat (0xC0 + n div 64), of_nat (0x80 + n mod 64)]
      else if n < 0x10000 then
        [of_nat (0xE0 + n div 4096), of_nat (0x80 + n div 64 mod 64), of_nat (0x80 + n mod 64)]
      else
        [of_nat (0xF0 + n div 262144), of_nat (0x80 + n div 4096 mod 64),
         of_nat (0x80 + n div 64 mod 64), of_nat (0x80 + n mod 64)])"

definition Buffer_from :: "jsstring \<Rightarrow> byte list" where
  "Buffer_from s = concat (map utf8CodePoint (codePoints s))"

text \<open>
  \<open>crypto.timingSafeEqual\<close> throws a \<open>RangeError\<close> when its two buffers differ in
  byte length, and compares them otherwise.
\<close>

datatype error = RangeError

definition timingSafeEqual :: "byte list \<Rightarrow> byte list \<Rightarrow> error + bool" where
  "timingSafeEqual a b = (if length a \<noteq> length b then Inl RangeError else Inr (a = b))"

record StoredToken =
  token :: jsstring
  createdAt :: int
  expiresAt :: int

definition TOKEN_TTL :: int where
  "TOKEN_TTL = 60 * 60 * 1000"

definition MAX_STORED_TOKENS :: nat where
  "MAX_STORED_TOKENS = 100"

text \<open>
  The module's \<open>Map\<close>, in insertion order: \<open>set\<close> on a stored key replaces its value
  in place and appends a new key (\<open>AList.update\<close>), \<open>delete\<close> removes the key
  (\<open>AList.delete\<close>), \<open>size\<close> is the number of entries.
\<close>

type_synonym TokenStore = "(jsstring \<times> StoredToken) list"

definition cleanupExpiredTokens :: "int \<Rightarrow> TokenStore \<Rightarrow> TokenStore" where
  "cleanupExpiredTokens now tokenStore =
     filter (\<lambda>(sessionId, stored). \<not> now > expiresAt stored) tokenStore"

text \<open>The default value of the parameter \<open>sessionId\<close>.\<close>

definition sessionIdOr :: "jsstring option \<Rightarrow> jsstring" where
  "sessionIdOr sessionId = (case sessionId of None \<Rightarrow> js ''default'' | Some s \<Rightarrow> s)"

text \<open>
  \<open>generateCSRFToken\<close>: \<open>rnd\<close> is what \<open>crypto.randomBytes(32)\<close> returns, \<open>now\<close> the
  clock reading of the function itself and \<open>now'\<close> the one of the cleanup it may call.
  The token is stored first; the cleanup runs afterwards, when the store then holds
  more than \<open>MAX_STORED_TOKENS\<close> entries.
\<close>

definition generateCSRFToken ::
  "byte list \<Rightarrow> int \<Rightarrow> int \<Rightarrow> jsstring option \<Rightarrow> TokenStore \<Rightarrow> jsstring \<times> TokenStore" where
  "generateCSRFToken rnd now now' sessionId tokenStore =
     (let tok = toHex rnd;
          storedToken = \<lparr> token = tok, createdAt = now, expiresAt = now + TOKEN_TTL \<rparr>;
          st1 = AList.update (sessionIdOr sessionId) storedToken tokenStore;
          st2 = (if length st1 > MAX_STORED_TOKENS then cleanupExpiredTokens now' st1 else st1)
      in (tok, st2))"

text \<open>
  \<open>validateCSRFToken\<close>: the result is \<open>Inr\<close> of the returned boolean, or \<open>Inl\<close> of the
  exception that leaves the function; the store is returned as the call leaves it.
  The exception of \<open>timingSafeEqual\<close> is raised before the \<open>delete\<close> that follows it.
\<close>

definition validateCSRFToken ::
  "jsstring \<Rightarrow> jsstring option \<Rightarrow> int \<Rightarrow> TokenStore \<Rightarrow> (error + bool) \<times> TokenStore" where
  "validateCSRFToken tok sessionId now tokenStore =
     (case map_of tokenStore (sessionIdOr sessionId) of
        None \<Rightarrow> (Inr False, tokenStore)
      | Some stored \<Rightarrow>
          if now > expiresAt stored then
            (Inr False, AList.delete (sessionIdOr sessionId) tokenStore)
          else
            (case timingSafeEqual (Buffer_from (token stored)) (Buffer_from tok) of
               Inl e \<Rightarrow> (Inl e, tokenStore)
             | Inr isValid \<Rightarrow> (Inr isValid, AList.delete (sessionIdOr sessionId) tokenStore)))"

text \<open>Tokens issued one after the other for a list of session keys, at one clock reading.\<close>

fun issueFor :: "byte list \<Rightarrow> int \<Rightarrow> jsstring list \<Rightarrow> TokenStore \<Rightarrow> TokenStore" where
  "issueFor rnd now [] tokenStore = tokenStore"
| "issueFor rnd now (k # ks) tokenStore =
     issueFor rnd now ks (snd (generateCSRFToken rnd now now (Some k) tokenStore))"

text \<open>Example data: thirty-two bytes as \<open>crypto.randomBytes(32)\<close> may return them.\<close>

definition exampleRandom :: "byte list" where
  "exampleRandom =
     [0x10, 0x32, 0x54, 0x76, 0x98, 0xba, 0xdc, 0xfe, 0x10, 0x32, 0x54, 0x76, 0x98, 0xba, 0xdc, 0xfe,
      0x10, 0x32, 0x54, 0x76, 0x98, 0xba, 0xdc, 0xfe, 0x10, 0x32, 0x54, 0x76, 0x98, 0xba, 0xdc, 0xfe]"

definition exampleToken :: jsstring where
  "exampleToken = js ''1032547698badcfe1032547698badcfe1032547698badcfe1032547698badcfe''"

text \<open>A store in which no token has expired at the clock reading \<open>now\<close>.\<close>

definition unexpired :: "int \<Rightarrow> TokenStore \<Rightarrow> bool" where
  "unexpired now st = list_all (\<lambda>(sessionId, stored). \<not> now > expiresAt stored) st"

text \<open>
  Example data: a store of one hundred entries, the first expired at the clock reading
  7000000 and the others not.
\<close>

definition liveToken :: StoredToken where
  "liveToken = \<lparr> token = exampleToken, createdAt = 5000000, expiresAt = 8600000 \<rparr>"

definition staleToken :: StoredToken where
  "staleToken = \<lparr> token = exampleToken, createdAt = 0, expiresAt = 3600000 \<rparr>"

definition fullStore :: TokenStore where
  "fullStore = (js ''old'', staleToken) # (js ''live'', liveToken)
                 # map (\<lambda>i. (replicate (Suc i) 0x61, liveToken)) [0..<98]"

section \<open>Regular expressions\<close>

text \<open>
  The regular expressions of the source, as a backtracking matcher. \<open>rmatch r s\<close> lists
  what is left of \<open>s\<close> after each way of matching \<open>r\<close> at its start, in the order in
  which a backtracking engine tries them: a greedy quantifier tries one more iteration
  first, a lazy one tries to stop first, and an iteration that consumes nothing is
  rejected. The first element is the match the engine reports.
\<close>

datatype regex =
    Eps
  | Chr "jschar \<Rightarrow> bool"
  | Seq regex regex
  | Opt regex
  | Star regex
  | Lazy regex

fun rmatch :: "regex \<Rightarrow> jsstring \<Rightarrow> jsstring list" where
  "rmatch Eps s = [s]"
| "rmatch (Chr p) s = (case s of [] \<Rightarrow> [] | c # cs \<Rightarrow> if p c then [cs] else [])"
| "rmatch (Seq a b) s = concat (map (rmatch b) (rmatch a s))"
| "rmatch (Opt a) s = rmatch a s @ [s]"
| "rmatch (Star a) s =
     concat (map (\<lambda>s'. if length s' < length s then rmatch (Star a) s' else []) (rmatch a s)) @ [s]"
| "rmatch (Lazy a) s =
     s # concat (map (\<lambda>s'. if length s' < length s then rmatch (Lazy a) s' else []) (rmatch a s))"

text \<open>A sequence of items; \<open>r+\<close>; \<open>r{0,n}\<close>.\<close>

definition seq :: "regex list \<Rightarrow> regex" where
  "seq rs = foldr Seq rs Eps"

definition Plus :: "regex \<Rightarrow> regex" where
  "Plus r = Seq r (Star r)"

fun upTo :: "nat \<Rightarrow> regex \<Rightarrow> regex" where
  "upTo 0 r = Eps"
| "upTo (Suc n) r = Opt (Seq r (upTo n r))"

text \<open>
  \<open>RegExp.prototype.test\<close> of a pattern anchored by \<open>^\<close> and \<open>$\<close> (no \<open>g\<close>, no
  \<open>m\<close> flag): some way of matching consumes the whole string.
\<close>

definition testAnchored :: "regex \<Rightarrow> jsstring \<Rightarrow> bool" where
  "testAnchored r s = ([] \<in> set (rmatch r s))"

text \<open>
  \<open>String.prototype.replace\<close> with a global pattern and a replacement string without
  \<open>$\<close>: the string is scanned from the left; at each position the first match of the
  pattern, if any, is replaced and the scan goes on behind it; an empty match is
  replaced and the scan steps over one code unit.
\<close>

function replaceAll :: "regex \<Rightarrow> jsstring \<Rightarrow> jsstring \<Rightarrow> jsstring" where
  "replaceAll r rep s =
     (case rmatch r s of
        [] \<Rightarrow> (case s of [] \<Rightarrow> [] | c # cs \<Rightarrow> c # replaceAll r rep cs)
      | s' # _ \<Rightarrow>
          if length s' < length s then rep @ replaceAll r rep s'
          else (case s of [] \<Rightarrow> rep | c # cs \<Rightarrow> rep @ c # replaceAll r rep cs))"
  by pat_completeness auto
termination
  by (relation "measure (\<lambda>(r, rep, s). length s)") auto

declare replaceAll.simps [simp del]

text \<open>\<open>String.prototype.includes\<close>.\<close>

fun includes' :: "jsstring \<Rightarrow> jsstring \<Rightarrow> bool" where
  "includes' [] sub = (sub = [])"
| "includes' (c # cs) sub = (take (length sub) (c # cs) = sub \<or> includes' cs sub)"

text \<open>
  Character classes. With the \<open>i\<close> flag and without the \<open>u\<close> flag a code unit
  matches an ASCII character of the pattern when the two are equal up to ASCII case:
  the canonical form of a code unit above 127 is never an ASCII character.
  \<open>\s\<close> and \<open>trim\<close> share the white space and line terminator code units.
\<close>

definition sameLetter :: "jschar \<Rightarrow> jschar \<Rightarrow> bool" where
  "sameLetter c d =
     (d = c \<or> (0x61 \<le> c \<and> c \<le> 0x7A \<and> d = c - 0x20) \<or> (0x41 \<le> c \<and> c \<le> 0x5A \<and> d = c + 0x20))"

definition lit :: "string \<Rightarrow> regex list" where
  "lit s = map (\<lambda>c. Chr (\<lambda>d. d = of_char c)) s"

definition litI :: "string \<Rightarrow> regex list" where
  "litI s = map (\<lambda>c. Chr (sameLetter (of_char c))) s"

definition isDigit :: "jschar \<Rightarrow> bool" where
  "isDigit c = (0x30 \<le> c \<and> c \<le> 0x39)"

definition isAlpha :: "jschar \<Rightarrow> bool" where
  "isAlpha c = ((0x41 \<le> c \<and> c \<le> 0x5A) \<or> (0x61 \<le> c \<and> c \<le> 0x7A))"

definition isWord :: "jschar \<Rightarrow> bool" where
  "isWord c = (isAlpha c \<or> isDigit c \<or> c = 0x5F)"

definition isHexDigit :: "jschar \<Rightarrow> bool" where
  "isHexDigit c = (isDigit c \<or> (0x61 \<le> c \<and> c \<le> 0x66) \<or> (0x41 \<le> c \<and> c \<le> 0x46))"

definition isSpace :: "jschar \<Rightarrow> bool" where
  "isSpace c =
     ((0x09 \<le> c \<and> c \<le> 0x0D) \<or> c = 0x20 \<or> c = 0xA0 \<or> c = 0x1680
      \<or> (0x2000 \<le> c \<and> c \<le> 0x200A) \<or> c = 0x2028 \<or> c = 0x2029 \<or> c = 0x202F
      \<or> c = 0x205F \<or> c = 0x3000 \<or> c = 0xFEFF)"

definition trim :: "jsstring \<Rightarrow> jsstring" where
  "trim s = rev (dropWhile isSpace (rev (dropWhile isSpace s)))"

section \<open>Input sanitization (src/lib/security.ts)\<close>

definition anyChar :: regex where
  "anyChar = Chr (\<lambda>c. True)"

definition notGt :: regex where
  "notGt = Chr (\<lambda>c. c \<noteq> 0x3E)"

text \<open>
  A pair of tags \<open><name[^>]*>.*?<\/name>\<close> with the flags \<open>gis\<close>: with \<open>s\<close> the dot
  matches every code unit.
\<close>

definition tagPair :: "string \<Rightarrow> regex" where
  "tagPair name =
     seq (litI ''<'' @ litI name @ [Star notGt] @ litI ''>'' @ [Lazy anyChar]
          @ litI ''</'' @ litI name @ litI ''>'')"

text \<open>
  The catalogue, in the order of the source. Every pattern has the flags \<open>g\<close> and
  \<open>i\<close>: \<open>\w\<close> is \<open>[A-Za-z0-9_]\<close>, \<open>\d\<close> is \<open>[0-9]\<close> and \<open>[\da-f]\<close> also
  matches \<open>A\<close> to \<open>F\<close>.
\<close>

definition DANGEROUS_PATTERNS :: "regex list" where
  "DANGEROUS_PATTERNS =
     [ seq (litI ''javascript:''),
       seq (litI ''data:text/html''),
       seq (litI ''vbscript:''),
       seq (litI ''on'' @ [Plus (Chr isWord), Star (Chr isSpace)] @ litI ''=''),
       tagPair ''script'',
       tagPair ''iframe'',
       tagPair ''object'',
       tagPair ''embed'',
       tagPair ''form'',
       seq (litI ''<input'' @ [Star notGt] @ litI ''>''),
       tagPair ''button'',
       seq (litI ''expression'' @ [Star (Chr isSpace)] @ litI ''(''),
       seq (litI ''@import''),
       seq (litI ''&#x'' @ [Plus (Chr isHexDigit)] @ litI '';''),
       seq (litI ''&#'' @ [Plus (Chr isDigit)] @ litI '';''),
       seq (litI ''from'' @ [Star (Chr isSpace)] @ litI ''('' @ [Star (Chr isSpace)]
            @ [Chr (\<lambda>c. c = 0x27 \<or> c = 0x22)] @ [Star (Chr isSpace)] @ litI ''javascript'') ]"

text \<open>
  \<open>sanitizeInput\<close> and its stages, in the order of the source: the control
  characters of the class \<open>[\x00-\x08\x0B\x0C\x0E-\x1F\x7F]\<close> are removed, then the
  matches of each dangerous pattern in turn, then the six characters are encoded as
  entities, then what still looks like a tag is removed, and the result is trimmed and
  cut at 2000 code units. The empty string is returned at once.
\<close>

definition isControl :: "jschar \<Rightarrow> bool" where
  "isControl c = (c \<le> 0x08 \<or> c = 0x0B \<or> c = 0x0C \<or> (0x0E \<le> c \<and> c \<le> 0x1F) \<or> c = 0x7F)"

definition stripControl :: "jsstring \<Rightarrow> jsstring" where
  "stripControl s = replaceAll (seq [Chr isControl]) [] s"

definition stripDangerous :: "jsstring \<Rightarrow> jsstring" where
  "stripDangerous s = foldl (\<lambda>sanitized pattern. replaceAll pattern [] sanitized) s DANGEROUS_PATTERNS"

definition encodeEntities :: "jsstring \<Rightarrow> jsstring" where
  "encodeEntities s =
     replaceAll (seq (lit ''/'')) (js ''&#x2F;'')
       (replaceAll (seq (lit [CHR 0x27])) (js ''&#x27;'')
         (replaceAll (seq (lit [CHR 0x22])) (js ''&quot;'')
           (replaceAll (seq (lit ''>'')) (js ''&gt;'')
             (replaceAll (seq (lit ''<'')) (js ''&lt;'')
               (replaceAll (seq (lit ''&'')) (js ''&amp;'') s)))))"

definition stripTags :: "jsstring \<Rightarrow> jsstring" where
  "stripTags s = replaceAll (seq (lit ''<'' @ [Star notGt] @ lit ''>'')) [] s"

definition sanitizeInput :: "jsstring \<Rightarrow> jsstring" where
  "sanitizeInput input =
     (if input = [] then []
      else take 2000 (trim (stripTags (encodeEntities (stripDangerous (stripControl input))))))"

section \<open>Email validation (src/lib/security.ts, src/lib/validations.ts)\<close>

definition MAX_EMAIL_LENGTH :: nat where
  "MAX_EMAIL_LENGTH = 255"

definition isAlnum :: "jschar \<Rightarrow> bool" where
  "isAlnum c = (isAlpha c \<or> isDigit c)"

text \<open>The class \<open>[a-zA-Z0-9.!#$%&'*+/=?^_`{|}~-]\<close> of the local part.\<close>

definition isLocalChar :: "jschar \<Rightarrow> bool" where
  "isLocalChar c =
     (isAlnum c \<or> c \<in> set (js ''.!#$%&*+/=?^_`{|}~-'') \<or> c = 0x27)"

definition isLabelChar :: "jschar \<Rightarrow> bool" where
  "isLabelChar c = (isAlnum c \<or> c = 0x2D)"

text \<open>A domain label \<open>[a-zA-Z0-9](?:[a-zA-Z0-9-]{0,61}[a-zA-Z0-9])?\<close>.\<close>

definition domainLabel :: regex where
  "domainLabel = Seq (Chr isAlnum) (Opt (Seq (upTo 61 (Chr isLabelChar)) (Chr isAlnum)))"

definition emailRegex :: regex where
  "emailRegex =
     seq [Plus (Chr isLocalChar), Chr (\<lambda>c. c = 0x40), domainLabel,
          Star (Seq (Chr (\<lambda>c. c = 0x2E)) domainLabel)]"

definition validateEmail :: "jsstring \<Rightarrow> bool" where
  "validateEmail email =
     (if \<not> testAnchored emailRegex email then False
      else if length email > MAX_EMAIL_LENGTH then False
      else if includes' email (js ''+'') \<or> includes' email (js ''..'') then False
      else True)"

text \<open>
  The \<open>email\<close> field of \<open>contactFormSchema\<close>: the issues that zod collects for a
  value of the field, \<open>None\<close> being a missing value. The checks run in the order of
  the chain, each on the value as given (\<open>toLowerCase\<close> and \<open>trim\<close> come last), and
  a failed check does not stop the later ones. The format test of \<open>.email()\<close> is code
  of the zod library and is the parameter \<open>zodEmail\<close>; the schema adds the two length
  checks and nothing else.
\<close>

definition contactFormSchema_email :: "(jsstring \<Rightarrow> bool) \<Rightarrow> jsstring option \<Rightarrow> string list" where
  "contactFormSchema_email zodEmail v =
     (case v of
        None \<Rightarrow> [''Email is required'']
      | Some email \<Rightarrow>
          (if zodEmail email then [] else [''Invalid email address''])
          @ (if length email < 5 then [''Email must be at least 5 characters''] else [])
          @ (if length email > 255 then [''Email must be less than 255 characters''] else []))"

text \<open>The least number of code units a match of a pattern consumes.\<close>

fun minLen :: "regex \<Rightarrow> nat" where
  "minLen Eps = 0"
| "minLen (Chr p) = 1"
| "minLen (Seq a b) = minLen a + minLen b"
| "minLen (Opt a) = 0"
| "minLen (Star a) = 0"
| "minLen (Lazy a) = 0"

section \<open>Request throttle: proofs\<close>

lemma contactFormLimiter_simps:
  "window contactFormLimiter = 60000" "maxRequests contactFormLimiter = 3"
  by (simp_all add: contactFormLimiter_def RateLimiter_def)

lemma check_blocked:
  assumes "st ident = Some e" "\<not> now > resetTime e" "real_of_int (count e) \<ge> maxRequests cfg"
  shows "check cfg ident now st = (\<lparr> allowed = False, remaining = 0, resetTime' = resetTime e \<rparr>, st)"
  using assms by (simp add: check_def)

lemma cleanup_Some: "cleanup cfg now st k = Some e \<Longrightarrow> st k = Some e"
  by (auto simp: cleanup_def Let_def split: option.splits if_splits)

lemma count_ok_cleanup: "count_ok cfg st \<Longrightarrow> count_ok cfg (cleanup cfg now st)"
  unfolding count_ok_def by (blast dest: cleanup_Some)

lemma count_ok_check:
  assumes "maxRequests cfg = real_of_int m" "1 \<le> m" "count_ok cfg st"
  shows "count_ok cfg (snd (check cfg ident now st))"
proof -
  have nw: "count_ok cfg (snd (newWindow cfg ident now st))"
    unfolding newWindow_def Let_def snd_conv
    by (rule count_ok_cleanup) (use assms in \<open>auto simp: count_ok_def\<close>)
  show ?thesis
  proof (cases "st ident")
    case None
    then show ?thesis using nw by (simp add: check_def)
  next
    case (Some e)
    from assms(3) Some have e: "1 \<le> count e" "real_of_int (count e) \<le> maxRequests cfg"
      by (auto simp: count_ok_def)
    consider (expired) "now > resetTime e"
      | (blocked) "\<not> now > resetTime e" "real_of_int (count e) \<ge> maxRequests cfg"
      | (incr) "\<not> now > resetTime e" "\<not> real_of_int (count e) \<ge> maxRequests cfg"
      by blast
    then show ?thesis
    proof cases
      case expired
      then show ?thesis using Some nw by (simp add: check_def)
    next
      case blocked
      then show ?thesis using Some assms(3) by (simp add: check_def)
    next
      case incr
      then have st': "snd (check cfg ident now st) = st(ident \<mapsto> e\<lparr>count := count e + 1, lastSeen := now\<rparr>)"
        using Some by (simp add: check_def Let_def)
      from incr(2) assms(1) have "count e < m" by simp
      then have below: "real_of_int (count e + 1) \<le> maxRequests cfg"
        unfolding assms(1) by simp
      show ?thesis
        unfolding st' count_ok_def
      proof (intro allI impI)
        fix k e'
        assume h: "(st(ident \<mapsto> e\<lparr>count := count e + 1, lastSeen := now\<rparr>)) k = Some e'"
        show "1 \<le> count e' \<and> real_of_int (count e') \<le> maxRequests cfg"
        proof (cases "k = ident")
          case True
          with h have "e' = e\<lparr>count := count e + 1, lastSeen := now\<rparr>" by simp
          then show ?thesis using e below by simp
        next
          case False
          with h have "st k = Some e'" by simp
          then show ?thesis using assms(3) by (auto simp: count_ok_def)
        qed
      qed
    qed
  qed
qed

lemma remaining_check:
  assumes "maxRequests cfg = real_of_int m" "1 \<le> m"
  shows "0 \<le> remaining (fst (check cfg ident now st))"
proof -
  have nw: "0 \<le> remaining (fst (newWindow cfg ident now st))"
    using assms by (simp add: newWindow_def Let_def)
  show ?thesis
  proof (cases "st ident")
    case None
    then show ?thesis using nw by (simp add: check_def)
  next
    case (Some e)
    consider (expired) "now > resetTime e"
      | (blocked) "\<not> now > resetTime e" "real_of_int (count e) \<ge> maxRequests cfg"
      | (incr) "\<not> now > resetTime e" "\<not> real_of_int (count e) \<ge> maxRequests cfg"
      by blast
    then show ?thesis
    proof cases
      case expired
      then show ?thesis using Some nw by (simp add: check_def)
    next
      case blocked
      then show ?thesis using Some by (simp add: check_def)
    next
      case incr
      from incr(2) assms(1) have "count e < m" by simp
      then have "real_of_int (count e + 1) \<le> real_of_int m"
        by simp
      then show ?thesis using Some incr assms(1) by (simp add: check_def Let_def)
    qed
  qed
qed

lemma checks_count_ok:
  assumes "maxRequests cfg = real_of_int m" "1 \<le> m" "count_ok cfg st"
  shows "count_ok cfg (snd (checks cfg cs st)) \<and> (\<forall>r\<in>set (fst (checks cfg cs st)). 0 \<le> remaining r)"
  using assms(3)
proof (induction cs arbitrary: st)
  case Nil
  then show ?case by simp
next
  case (Cons c cs)
  from count_ok_check[OF assms(1,2) Cons.prems]
  have "count_ok cfg (snd (check cfg (fst c) (snd c) st))" .
  from Cons.IH[OF this] remaining_check[OF assms(1,2)]
  show ?case by (simp add: Let_def)
qed

lemma checks_incr:
  assumes "st ident = Some e" "\<forall>t\<in>set ts. t \<le> resetTime e"
    "real_of_int (count e + int (length ts)) \<le> maxRequests cfg"
  shows "fst (checks cfg (map (Pair ident) ts) st) =
           map (\<lambda>i. \<lparr> allowed = True,
                       remaining = maxRequests cfg - real_of_int (count e + 1 + int i),
                       resetTime' = resetTime e \<rparr>) [0..<length ts]
         \<and> (\<exists>e'. snd (checks cfg (map (Pair ident) ts) st) ident = Some e'
                 \<and> count e' = count e + int (length ts) \<and> resetTime e' = resetTime e)"
  using assms
proof (induction ts arbitrary: st e)
  case Nil
  then show ?case by simp
next
  case (Cons t ts)
  define e1 where "e1 = e\<lparr> count := count e + 1, lastSeen := t \<rparr>"
  define st1 where "st1 = st(ident \<mapsto> e1)"
  from Cons.prems(3) have room: "real_of_int (count e) + 1 \<le> maxRequests cfg"
    by simp
  then have open': "\<not> real_of_int (count e) \<ge> maxRequests cfg" by simp
  have ck: "check cfg ident t st =
              (\<lparr> allowed = True, remaining = maxRequests cfg - real_of_int (count e + 1),
                 resetTime' = resetTime e \<rparr>, st1)"
    using Cons.prems(1,2) open' by (simp add: check_def Let_def e1_def st1_def)
  have "st1 ident = Some e1" by (simp add: st1_def)
  moreover have "\<forall>t\<in>set ts. t \<le> resetTime e1" using Cons.prems by (simp add: e1_def)
  moreover have "real_of_int (count e1 + int (length ts)) \<le> maxRequests cfg"
    using Cons.prems(3) by (simp add: e1_def add.assoc)
  ultimately have IH:
    "fst (checks cfg (map (Pair ident) ts) st1) =
       map (\<lambda>i. \<lparr> allowed = True,
                   remaining = maxRequests cfg - real_of_int (count e1 + 1 + int i),
                   resetTime' = resetTime e1 \<rparr>) [0..<length ts]"
    "\<exists>e'. snd (checks cfg (map (Pair ident) ts) st1) ident = Some e'
          \<and> count e' = count e1 + int (length ts) \<and> resetTime e' = resetTime e1"
    using Cons.IH[of st1 e1] by blast+
  have shift: "map (\<lambda>i. \<lparr> allowed = True,
                       remaining = maxRequests cfg - real_of_int (count e + 1 + int i),
                       resetTime' = resetTime e \<rparr>) [0..<length (t # ts)]
     = \<lparr> allowed = True, remaining = maxRequests cfg - real_of_int (count e + 1),
         resetTime' = resetTime e \<rparr>
       # map (\<lambda>i. \<lparr> allowed = True,
                   remaining = maxRequests cfg - real_of_int (count e1 + 1 + int i),
                   resetTime' = resetTime e1 \<rparr>) [0..<length ts]"
    by (simp add: upt_conv_Cons map_Suc_upt[symmetric] e1_def add.assoc del: upt_Suc)
  from IH(2) obtain e' where e': "snd (checks cfg (map (Pair ident) ts) st1) ident = Some e'"
    "count e' = count e1 + int (length ts)" "resetTime e' = resetTime e1" by blast
  have "count e' = count e + int (length (t # ts))" "resetTime e' = resetTime e"
    using e' by (simp_all add: e1_def)
  with e'(1) have ex: "\<exists>e'. snd (checks cfg (map (Pair ident) (t # ts)) st) ident = Some e'
          \<and> count e' = count e + int (length (t # ts)) \<and> resetTime e' = resetTime e"
    using ck by (simp add: Let_def)
  have "fst (checks cfg (map (Pair ident) (t # ts)) st) =
     \<lparr> allowed = True, remaining = maxRequests cfg - real_of_int (count e + 1),
       resetTime' = resetTime e \<rparr>
       # map (\<lambda>i. \<lparr> allowed = True,
                   remaining = maxRequests cfg - real_of_int (count e1 + 1 + int i),
                   resetTime' = resetTime e1 \<rparr>) [0..<length ts]"
    using IH(1) ck by (simp add: Let_def)
  with ex show ?case unfolding shift by blast
qed

lemma newWindow_entry:
  assumes "0 \<le> window cfg"
  shows "snd (newWindow cfg ident now st) ident =
           Some \<lparr> count = 1, resetTime = now + window cfg, lastSeen = now \<rparr>"
  using assms by (simp add: newWindow_def cleanup_def Let_def)

lemma check_depends_on_entry:
  assumes "st1 B = st2 B"
  shows "fst (check cfg B t st1) = fst (check cfg B t st2)
         \<and> snd (check cfg B t st1) B = snd (check cfg B t st2) B"
  using assms
  by (auto simp: check_def newWindow_def cleanup_def Let_def split: option.splits)

lemma checks_depend_on_entry:
  assumes "st1 B = st2 B"
  shows "fst (checks cfg (map (Pair B) ts) st1) = fst (checks cfg (map (Pair B) ts) st2)"
  using assms
proof (induction ts arbitrary: st1 st2)
  case Nil
  then show ?case by simp
next
  case (Cons t ts)
  from Cons.prems check_depends_on_entry[of st1 B st2 cfg t]
  have a: "fst (check cfg B t st1) = fst (check cfg B t st2)"
    and b: "snd (check cfg B t st1) B = snd (check cfg B t st2) B" by blast+
  from Cons.IH[of "snd (check cfg B t st1)" "snd (check cfg B t st2)"] b a show ?case by (simp add: Let_def)
qed

lemma check_other:
  assumes "A \<noteq> B"
  shows "snd (check cfg A tA st) B = st B \<or>
         (snd (check cfg A tA st) B = None \<and>
            (\<exists>e. st B = Some e \<and> lastSeen e < tA - window cfg * 2))"
  using assms
  by (auto simp: check_def newWindow_def cleanup_def Let_def split: option.splits)

lemma check_expired_like_absent:
  assumes "st1 B = None" "st2 B = Some e" "resetTime e < t"
  shows "fst (check cfg B t st1) = fst (check cfg B t st2)
         \<and> snd (check cfg B t st1) B = snd (check cfg B t st2) B"
  using assms
  by (auto simp: check_def newWindow_def cleanup_def Let_def split: option.splits)

lemma entries_ok_cleanup: "entries_ok cfg t st \<Longrightarrow> entries_ok cfg t (cleanup cfg now st)"
  unfolding entries_ok_def by (blast dest: cleanup_Some)

lemma entries_ok_check:
  assumes "entries_ok cfg t st" "t \<le> now"
  shows "entries_ok cfg now (snd (check cfg ident now st))"
proof -
  have mono: "entries_ok cfg now st"
    using assms unfolding entries_ok_def by (meson order_trans)
  have nw: "entries_ok cfg now (snd (newWindow cfg ident now st))"
    unfolding newWindow_def Let_def snd_conv
    by (rule entries_ok_cleanup) (use mono in \<open>auto simp: entries_ok_def\<close>)
  show ?thesis
  proof (cases "st ident")
    case None
    then show ?thesis using nw by (simp add: check_def)
  next
    case (Some e)
    from assms Some have e: "resetTime e \<le> lastSeen e + window cfg" "lastSeen e \<le> t"
      by (auto simp: entries_ok_def)
    consider (expired) "now > resetTime e"
      | (blocked) "\<not> now > resetTime e" "real_of_int (count e) \<ge> maxRequests cfg"
      | (incr) "\<not> now > resetTime e" "\<not> real_of_int (count e) \<ge> maxRequests cfg"
      by blast
    then show ?thesis
    proof cases
      case expired
      then show ?thesis using Some nw by (simp add: check_def)
    next
      case blocked
      then show ?thesis using Some mono by (simp add: check_def)
    next
      case incr
      then have st': "snd (check cfg ident now st) = st(ident \<mapsto> e\<lparr>count := count e + 1, lastSeen := now\<rparr>)"
        using Some by (simp add: check_def Let_def)
      show ?thesis
        unfolding st' entries_ok_def
      proof (intro allI impI)
        fix k e'
        assume h: "(st(ident \<mapsto> e\<lparr>count := count e + 1, lastSeen := now\<rparr>)) k = Some e'"
        show "resetTime e' \<le> lastSeen e' + window cfg \<and> lastSeen e' \<le> now"
        proof (cases "k = ident")
          case True
          with h have "e' = e\<lparr>count := count e + 1, lastSeen := now\<rparr>" by simp
          then show ?thesis using e assms(2) by simp
        next
          case False
          with h have "st k = Some e'" by simp
          then show ?thesis using mono by (auto simp: entries_ok_def)
        qed
      qed
    qed
  qed
qed

lemma entries_ok_checks:
  assumes "entries_ok cfg t st" "sorted (t # map snd cs)"
  shows "\<exists>t'. entries_ok cfg t' (snd (checks cfg cs st))"
  using assms
proof (induction cs arbitrary: t st)
  case Nil
  then show ?case by auto
next
  case (Cons c cs)
  from Cons.prems have "t \<le> snd c" by simp
  from entries_ok_check[OF Cons.prems(1) this]
  have "entries_ok cfg (snd c) (snd (check cfg (fst c) (snd c) st))" .
  moreover from Cons.prems have "sorted (snd c # map snd cs)" by simp
  ultimately show ?case using Cons.IH by (simp add: Let_def)
qed

lemma entries_ok_reachable:
  assumes "sorted (map snd cs)"
  shows "\<exists>t. entries_ok cfg t (snd (checks cfg cs Map.empty))"
proof (cases cs)
  case Nil
  have "entries_ok cfg 0 Map.empty" by (simp add: entries_ok_def)
  with Nil show ?thesis by auto
next
  case (Cons c cs')
  have "entries_ok cfg (snd c) Map.empty" by (simp add: entries_ok_def)
  moreover have "sorted (snd c # map snd cs)" using assms Cons by simp
  ultimately show ?thesis by (rule entries_ok_checks)
qed

lemma isolation_from_entry:
  assumes w: "0 \<le> window cfg" and ne: "A \<noteq> B"
    and ok: "case st B of None \<Rightarrow> True | Some e \<Rightarrow> resetTime e \<le> lastSeen e + window cfg"
    and later: "\<forall>t\<in>set ts. tA \<le> t"
  shows "fst (checks cfg (map (Pair B) ts) (snd (check cfg A tA st)))
       = fst (checks cfg (map (Pair B) ts) st)"
proof -
  define st1 where "st1 = snd (check cfg A tA st)"
  from check_other[OF ne, of cfg tA st]
  consider (same) "st1 B = st B"
    | (gc) e where "st1 B = None" "st B = Some e" "lastSeen e < tA - window cfg * 2"
    unfolding st1_def by blast
  then have "fst (checks cfg (map (Pair B) ts) st1) = fst (checks cfg (map (Pair B) ts) st)"
  proof cases
    case same
    then show ?thesis by (rule checks_depend_on_entry)
  next
    case gc
    show ?thesis
    proof (cases ts)
      case Nil
      then show ?thesis by simp
    next
      case (Cons t ts')
      from ok gc have "resetTime e \<le> lastSeen e + window cfg" by simp
      with gc w have "resetTime e < tA" by linarith
      moreover from later Cons have "tA \<le> t" by simp
      ultimately have "resetTime e < t" by linarith
      from gc(1,2) this check_expired_like_absent[of st1 B st e t cfg]
      have a: "fst (check cfg B t st1) = fst (check cfg B t st)"
        and b: "snd (check cfg B t st1) B = snd (check cfg B t st) B" by blast+
      from b checks_depend_on_entry[of "snd (check cfg B t st1)" B "snd (check cfg B t st)" cfg ts'] a
      show ?thesis unfolding Cons by (simp add: Let_def)
    qed
  qed
  then show ?thesis by (simp add: st1_def)
qed

text \<open>
  How \<open>check\<close> counts a window, for a maximum that is a natural number \<open>n \<ge> 1\<close> and a
  window \<open>W \<ge> 0\<close>: from an identifier without a current entry, \<open>n\<close> calls at clock
  readings up to \<open>t1 + W\<close> are allowed, a further call at a reading up to \<open>t1 + W\<close> is
  blocked, and a call at a reading above \<open>t1 + W\<close> opens a new window.
\<close>

lemma window_counting:
  assumes n: "maxRequests cfg = real n" "1 \<le> n" and w: "0 \<le> window cfg"
    and fresh: "case st ident of None \<Rightarrow> True | Some e \<Rightarrow> t1 > resetTime e"
    and ts: "length ts = n - 1" "\<forall>t\<in>set ts. t \<le> t1 + window cfg"
    and tb: "tb \<le> t1 + window cfg"
    and ta: "ta > t1 + window cfg"
  shows "let r1 = checks cfg (map (Pair ident) (t1 # ts)) st;
             rb = check cfg ident tb (snd r1);
             ra = check cfg ident ta (snd rb)
         in fst r1 = map (\<lambda>i. \<lparr> allowed = True, remaining = real n - 1 - real i,
                                  resetTime' = t1 + window cfg \<rparr>) [0..<n]
          \<and> fst rb = \<lparr> allowed = False, remaining = 0, resetTime' = t1 + window cfg \<rparr>
          \<and> fst ra = \<lparr> allowed = True, remaining = real n - 1, resetTime' = ta + window cfg \<rparr>
          \<and> snd ra ident = Some \<lparr> count = 1, resetTime = ta + window cfg, lastSeen = ta \<rparr>"
proof -
  define e0 where "e0 = \<lparr> count = 1, resetTime = t1 + window cfg, lastSeen = t1 \<rparr>"
  define st0 where "st0 = snd (check cfg ident t1 st)"
  define r1 where "r1 = checks cfg (map (Pair ident) (t1 # ts)) st"
  define rb where "rb = check cfg ident tb (snd r1)"
  define ra where "ra = check cfg ident ta (snd rb)"
  have first: "check cfg ident t1 st = newWindow cfg ident t1 st"
    using fresh by (auto simp: check_def split: option.splits)
  have r0: "fst (check cfg ident t1 st) =
              \<lparr> allowed = True, remaining = real n - 1, resetTime' = t1 + window cfg \<rparr>"
    unfolding first using n by (simp add: newWindow_def Let_def)
  have st0: "st0 ident = Some e0"
    unfolding st0_def first e0_def using w by (rule newWindow_entry)
  have bound: "real_of_int (count e0 + int (length ts)) \<le> maxRequests cfg"
    using n ts by (simp add: e0_def)
  have within: "\<forall>t\<in>set ts. t \<le> resetTime e0"
    using ts by (simp add: e0_def)
  from st0 within bound checks_incr[where st=st0 and ident=ident and e=e0 and ts=ts and cfg=cfg]
  have rest: "fst (checks cfg (map (Pair ident) ts) st0) =
           map (\<lambda>i. \<lparr> allowed = True,
                       remaining = maxRequests cfg - real_of_int (count e0 + 1 + int i),
                       resetTime' = resetTime e0 \<rparr>) [0..<length ts]"
    and "\<exists>e'. snd (checks cfg (map (Pair ident) ts) st0) ident = Some e'
                 \<and> count e' = count e0 + int (length ts) \<and> resetTime e' = resetTime e0"
    by blast+
  then obtain e' where e': "snd (checks cfg (map (Pair ident) ts) st0) ident = Some e'"
    "count e' = count e0 + int (length ts)" "resetTime e' = resetTime e0" by blast
  have sr1: "snd r1 = snd (checks cfg (map (Pair ident) ts) st0)"
    by (simp add: r1_def st0_def Let_def)
  have fr1: "fst r1 = fst (check cfg ident t1 st) # fst (checks cfg (map (Pair ident) ts) st0)"
    by (simp add: r1_def st0_def Let_def)
  have c1: "fst r1 = map (\<lambda>i. \<lparr> allowed = True, remaining = real n - 1 - real i,
                                  resetTime' = t1 + window cfg \<rparr>) [0..<n]"
  proof -
    have "[0..<n] = 0 # map Suc [0..<length ts]"
      using n ts by (simp add: upt_conv_Cons map_Suc_upt del: upt_Suc)
    then show ?thesis
      unfolding fr1 r0 rest using n by (simp add: e0_def o_def)
  qed
  have e'1: "snd r1 ident = Some e'" using e' sr1 by simp
  have full: "real_of_int (count e') \<ge> maxRequests cfg" using e' n ts by (simp add: e0_def)
  have cur: "\<not> tb > resetTime e'" using e' tb by (simp add: e0_def)
  from e'1 cur full check_blocked[where st="snd r1" and ident=ident and e=e' and now=tb and cfg=cfg]
  have rbv: "rb = (\<lparr> allowed = False, remaining = 0, resetTime' = resetTime e' \<rparr>, snd r1)"
    by (simp add: rb_def)
  have c2: "fst rb = \<lparr> allowed = False, remaining = 0, resetTime' = t1 + window cfg \<rparr>"
    using rbv e' by (simp add: e0_def)
  have "snd rb ident = Some e'" using rbv e'1 by simp
  moreover have "ta > resetTime e'" using e' ta by (simp add: e0_def)
  ultimately have rav: "ra = newWindow cfg ident ta (snd rb)"
    by (simp add: ra_def check_def)
  have c3: "fst ra = \<lparr> allowed = True, remaining = real n - 1, resetTime' = ta + window cfg \<rparr>"
    unfolding rav using n by (simp add: newWindow_def Let_def)
  have c4: "snd ra ident = Some \<lparr> count = 1, resetTime = ta + window cfg, lastSeen = ta \<rparr>"
    unfolding rav using w by (rule newWindow_entry)
  from c1 c2 c3 c4 show ?thesis
    unfolding Let_def r1_def[symmetric] rb_def[symmetric] ra_def[symmetric] by blast
qed


subsection \<open>Window correctness\<close>

text \<open>
  Claim C3 says that on a limiter with \<open>maxRequests = N\<close> and \<open>window = W\<close> the
  first \<open>N\<close> calls of a window are allowed, the next call within the window is
  blocked with \<open>remaining = 0\<close>, and the first call after the window has elapsed is
  allowed with \<open>remaining = N - 1\<close> and a fresh entry of count 1. The code opens a new
  window only when \<open>now > resetTime\<close>, so a call at the reset time itself, when the
  \<open>W\<close> milliseconds have elapsed, is still counted in the old window. Here the
  contact form limiter (3 requests, 60000 ms) allows three calls at 1000, 1010 and
  1020, with reset time 61000; a fourth call at 61000 is blocked and leaves the store
  as it was, where the claim has it allowed with \<open>remaining = 2\<close> and a fresh entry;
  one millisecond later, at 61001, the call is allowed. Calls at readings below the
  reset time and above it are counted as the claim says (lemma \<open>window_counting\<close>).
\<close>

theorem call_at_reset_time_is_blocked:
  "(let ip = js ''203.0.113.9'';
        r1 = checks contactFormLimiter (map (Pair ip) [1000, 1010, 1020]) Map.empty;
        rb = check contactFormLimiter ip (1000 + window contactFormLimiter) (snd r1);
        ra = check contactFormLimiter ip (1000 + window contactFormLimiter + 1) (snd r1)
    in fst r1 = [\<lparr> allowed = True, remaining = 2, resetTime' = 61000 \<rparr>,
                 \<lparr> allowed = True, remaining = 1, resetTime' = 61000 \<rparr>,
                 \<lparr> allowed = True, remaining = 0, resetTime' = 61000 \<rparr>]
     \<and> fst rb = \<lparr> allowed = False, remaining = 0, resetTime' = 61000 \<rparr>
     \<and> snd rb ip = Some \<lparr> count = 3, resetTime = 61000, lastSeen = 1020 \<rparr>
     \<and> fst ra = \<lparr> allowed = True, remaining = 2, resetTime' = 121001 \<rparr>
     \<and> snd ra ip = Some \<lparr> count = 1, resetTime = 121001, lastSeen = 61001 \<rparr>)"
  by (simp add: Let_def check_def newWindow_def cleanup_def contactFormLimiter_simps)

subsection \<open>Blocked calls\<close>

text \<open>
  Claim C8. For an identifier whose entry is current (the clock reading is not above
  its \<open>resetTime\<close>) and has \<open>count \<ge> maxRequests\<close>, any number of repeated calls
  return \<open>allowed = false\<close>, \<open>remaining = 0\<close> and the entry's reset time, and the
  store after the calls is the store before them: count, resetTime and lastSeen of
  the entry (and every other entry) are unchanged.
\<close>

theorem blocked_calls_leave_state_unchanged:
  assumes "st ident = Some e" "real_of_int (count e) \<ge> maxRequests cfg"
    "\<forall>t\<in>set ts. \<not> t > resetTime e"
  shows "checks cfg (map (Pair ident) ts) st =
           (replicate (length ts) \<lparr> allowed = False, remaining = 0, resetTime' = resetTime e \<rparr>, st)"
  using assms
proof (induction ts)
  case Nil
  then show ?case by simp
next
  case (Cons t ts)
  have "check cfg ident t st = (\<lparr> allowed = False, remaining = 0, resetTime' = resetTime e \<rparr>, st)"
    using Cons.prems by (intro check_blocked) auto
  with Cons show ?case by simp
qed

theorem blocked_calls_leave_state_unchanged_witness:
  "(let e = \<lparr> count = 3, resetTime = 61000, lastSeen = 1020 \<rparr>;
        st = [js ''203.0.113.9'' \<mapsto> e]
    in st (js ''203.0.113.9'') = Some e \<and> real_of_int (count e) \<ge> maxRequests contactFormLimiter
       \<and> list_all (\<lambda>t. \<not> t > resetTime e) [1030, 2000, 61000]
       \<and> checks contactFormLimiter (map (Pair (js ''203.0.113.9'')) [1030, 2000, 61000]) st =
           (replicate 3 \<lparr> allowed = False, remaining = 0, resetTime' = 61000 \<rparr>, st))"
proof -
  define e where "e = \<lparr> count = 3, resetTime = 61000, lastSeen = 1020 \<rparr>"
  define st :: RateLimitStore where "st = [js ''203.0.113.9'' \<mapsto> e]"
  have h1: "st (js ''203.0.113.9'') = Some e" by (simp add: st_def)
  have h2: "real_of_int (count e) \<ge> maxRequests contactFormLimiter"
    by (simp add: e_def contactFormLimiter_simps)
  have h3: "\<forall>t\<in>set [1030, 2000, 61000]. \<not> t > resetTime e" by (simp add: e_def)
  from h1 h2 h3
    blocked_calls_leave_state_unchanged[where st=st and ident="js ''203.0.113.9''" and e=e
      and cfg=contactFormLimiter and ts="[1030, 2000, 61000]"]
  have "checks contactFormLimiter (map (Pair (js ''203.0.113.9'')) [1030, 2000, 61000]) st =
           (replicate (length [1030, 2000, 61000 :: int])
              \<lparr> allowed = False, remaining = 0, resetTime' = resetTime e \<rparr>, st)"
    by blast
  then have "checks contactFormLimiter (map (Pair (js ''203.0.113.9'')) [1030, 2000, 61000]) st =
           (replicate 3 \<lparr> allowed = False, remaining = 0, resetTime' = 61000 \<rparr>, st)"
    by (simp add: e_def numeral_3_eq_3)
  moreover have "list_all (\<lambda>t. \<not> t > resetTime e) [1030, 2000, 61000]"
    using h3 by (simp add: list_all_iff)
  ultimately show ?thesis
    using h1 h2 unfolding Let_def e_def[symmetric] st_def[symmetric] by blast
qed

subsection \<open>Isolation\<close>

text \<open>
  Claim C9. Take a limiter with a window \<open>W \<ge> 0\<close>, any history \<open>cs\<close> of calls on the
  initially empty store with clock readings that do not decrease, and two distinct
  identifiers \<open>A\<close> and \<open>B\<close>. A call for \<open>A\<close> at a reading \<open>tA\<close> no earlier than the
  history does not change what later calls for \<open>B\<close> (at readings from \<open>tA\<close> on)
  return: their \<open>allowed\<close>, \<open>remaining\<close> and \<open>resetTime\<close> results are the same as
  without the call for \<open>A\<close>. The call for \<open>A\<close> may delete \<open>B\<close>'s entry, but only a
  stale one, and a stale entry's window has expired (lemmas \<open>check_other\<close> and
  \<open>isolation_from_entry\<close>).
\<close>

theorem throttle_isolation:
  assumes w: "0 \<le> window cfg" and ne: "A \<noteq> B"
    and clock: "sorted (map snd cs @ [tA])"
    and later: "\<forall>t\<in>set ts. tA \<le> t"
  shows "fst (checks cfg (map (Pair B) ts) (snd (check cfg A tA (snd (checks cfg cs Map.empty)))))
       = fst (checks cfg (map (Pair B) ts) (snd (checks cfg cs Map.empty)))"
proof -
  define st where "st = snd (checks cfg cs Map.empty)"
  from clock have "sorted (map snd cs)" by (simp add: sorted_append)
  from entries_ok_reachable[OF this, of cfg] obtain t where "entries_ok cfg t st"
    unfolding st_def by blast
  then have "case st B of None \<Rightarrow> True | Some e \<Rightarrow> resetTime e \<le> lastSeen e + window cfg"
    by (auto simp: entries_ok_def split: option.splits)
  with w ne later
    isolation_from_entry[where cfg=cfg and A=A and B=B and st=st and ts=ts and tA=tA]
  show ?thesis
    by (simp add: st_def)
qed

theorem throttle_isolation_witness:
  "0 \<le> window contactFormLimiter \<and> js ''A'' \<noteq> js ''B''
   \<and> sorted (map snd [(js ''B'', 1000), (js ''B'', 1010)] @ [200000 :: int])
   \<and> list_all (\<lambda>t. (200000::int) \<le> t) [200000, 200005]
   \<and> snd (checks contactFormLimiter [(js ''B'', 1000), (js ''B'', 1010)] Map.empty) (js ''B'')
       = Some \<lparr> count = 2, resetTime = 61000, lastSeen = 1010 \<rparr>
   \<and> snd (check contactFormLimiter (js ''A'') 200000
             (snd (checks contactFormLimiter [(js ''B'', 1000), (js ''B'', 1010)] Map.empty))) (js ''B'')
       = None
   \<and> fst (checks contactFormLimiter (map (Pair (js ''B'')) [200000, 200005])
            (snd (check contactFormLimiter (js ''A'') 200000
                   (snd (checks contactFormLimiter [(js ''B'', 1000), (js ''B'', 1010)] Map.empty)))))
     = fst (checks contactFormLimiter (map (Pair (js ''B'')) [200000, 200005])
            (snd (checks contactFormLimiter [(js ''B'', 1000), (js ''B'', 1010)] Map.empty)))"
proof -
  define st where "st = snd (checks contactFormLimiter [(js ''B'', 1000), (js ''B'', 1010)] Map.empty)"
  have ne: "js ''A'' \<noteq> js ''B''" by (simp add: js_def)
  have h1: "0 \<le> window contactFormLimiter" by (simp add: contactFormLimiter_simps)
  have h3: "sorted (map snd [(js ''B'', 1000), (js ''B'', 1010)] @ [200000 :: int])" by simp
  have h4: "\<forall>t\<in>set [200000, 200005]. (200000::int) \<le> t" by simp
  have stB: "st (js ''B'') = Some \<lparr> count = 2, resetTime = 61000, lastSeen = 1010 \<rparr>"
    by (simp add: st_def check_def newWindow_def cleanup_def contactFormLimiter_simps Let_def)
  have gc: "snd (check contactFormLimiter (js ''A'') 200000 st) (js ''B'') = None"
  proof -
    have "st (js ''A'') = None"
      using ne by (simp add: st_def check_def newWindow_def cleanup_def contactFormLimiter_simps Let_def)
    then show ?thesis
      using ne stB by (simp add: check_def newWindow_def cleanup_def contactFormLimiter_simps)
  qed
  from throttle_isolation[OF h1 ne h3 h4]
  have "fst (checks contactFormLimiter (map (Pair (js ''B'')) [200000, 200005])
              (snd (check contactFormLimiter (js ''A'') 200000 st)))
       = fst (checks contactFormLimiter (map (Pair (js ''B'')) [200000, 200005]) st)"
    unfolding st_def .
  moreover have "list_all (\<lambda>t. (200000::int) \<le> t) [200000, 200005]" by simp
  ultimately show ?thesis
    using h1 ne h3 stB gc unfolding st_def by blast
qed

subsection \<open>Count bound\<close>

text \<open>
  Claim C10 says that on a limiter with \<open>maxRequests \<ge> 1\<close> every stored entry has
  \<open>1 \<le> count \<le> maxRequests\<close> and that \<open>remaining\<close> is never negative. The
  constructor keeps any number it is given that is not zero. With \<open>maxRequests = 1.5\<close>
  the second call of a window finds \<open>1 \<ge> 1.5\<close> false, stores the count 2, above the
  maximum, and returns \<open>remaining = -0.5\<close>.
\<close>

theorem fractional_maximum_is_exceeded:
  "(let cfg = RateLimiter (Some 60000) (Some (3 / 2));
        r = checks cfg [(js ''203.0.113.9'', 1000), (js ''203.0.113.9'', 1010)] Map.empty
    in 1 \<le> maxRequests cfg
     \<and> fst r = [\<lparr> allowed = True, remaining = 1 / 2, resetTime' = 61000 \<rparr>,
                \<lparr> allowed = True, remaining = - 1 / 2, resetTime' = 61000 \<rparr>]
     \<and> snd r (js ''203.0.113.9'') = Some \<lparr> count = 2, resetTime = 61000, lastSeen = 1010 \<rparr>
     \<and> real_of_int 2 > maxRequests cfg)"
  by (simp add: Let_def check_def newWindow_def cleanup_def RateLimiter_def)

text \<open>
  Claim C10 as amended. On a limiter whose \<open>maxRequests\<close> is an integer \<open>m \<ge> 1\<close>,
  after any sequence of \<open>check\<close> calls (any identifiers, any clock readings) on the
  initially empty store, every entry in the store has \<open>1 \<le> count \<le> maxRequests\<close>,
  and every result returned in the sequence has \<open>remaining \<ge> 0\<close>.
\<close>

theorem throttle_count_bound:
  assumes "maxRequests cfg = real_of_int m" "1 \<le> m"
  shows "(\<forall>k e. snd (checks cfg cs Map.empty) k = Some e \<longrightarrow>
            1 \<le> count e \<and> real_of_int (count e) \<le> maxRequests cfg)
       \<and> (\<forall>r\<in>set (fst (checks cfg cs Map.empty)). 0 \<le> remaining r)"
proof -
  have "count_ok cfg Map.empty" by (simp add: count_ok_def)
  from checks_count_ok[OF assms this, of cs] show ?thesis
    by (simp add: count_ok_def)
qed

theorem throttle_count_bound_witness:
  "maxRequests contactFormLimiter = real_of_int 3 \<and> (1::int) \<le> 3
   \<and> (case snd (checks contactFormLimiter
                  [(js ''a'', 0), (js ''a'', 1), (js ''b'', 2), (js ''a'', 3), (js ''a'', 4),
                   (js ''a'', 70000)] Map.empty) (js ''a'') of
         None \<Rightarrow> False
       | Some e \<Rightarrow> 1 \<le> count e \<and> real_of_int (count e) \<le> maxRequests contactFormLimiter)
   \<and> list_all (\<lambda>r. 0 \<le> remaining r)
        (fst (checks contactFormLimiter
                  [(js ''a'', 0), (js ''a'', 1), (js ''b'', 2), (js ''a'', 3), (js ''a'', 4),
                   (js ''a'', 70000)] Map.empty))"
proof -
  define cs :: "(jsstring \<times> int) list" where
    "cs = [(js ''a'', 0), (js ''a'', 1), (js ''b'', 2), (js ''a'', 3), (js ''a'', 4), (js ''a'', 70000)]"
  have h: "maxRequests contactFormLimiter = real_of_int 3" "(1::int) \<le> 3"
    by (simp_all add: contactFormLimiter_simps)
  from throttle_count_bound[OF h, of cs]
  have inv: "\<And>k e. snd (checks contactFormLimiter cs Map.empty) k = Some e \<Longrightarrow>
                1 \<le> count e \<and> real_of_int (count e) \<le> maxRequests contactFormLimiter"
    and rem: "list_all (\<lambda>r. 0 \<le> remaining r) (fst (checks contactFormLimiter cs Map.empty))"
    by (blast, simp add: list_all_iff)
  have "snd (checks contactFormLimiter cs Map.empty) (js ''a'') \<noteq> None"
    by (simp add: cs_def js_def check_def newWindow_def cleanup_def contactFormLimiter_simps Let_def)
  then obtain e where e: "snd (checks contactFormLimiter cs Map.empty) (js ''a'') = Some e"
    by blast
  from inv[OF e] e h rem show ?thesis
    unfolding cs_def[symmetric] by simp
qed

section \<open>Anti-forgery tokens: proofs\<close>

lemma validate_throws:
  assumes "map_of st sid = Some stored" "\<not> now > expiresAt stored"
    "length (Buffer_from (token stored)) \<noteq> length (Buffer_from tok)"
  shows "validateCSRFToken tok (Some sid) now st = (Inl RangeError, st)"
  using assms by (simp add: validateCSRFToken_def sessionIdOr_def timingSafeEqual_def)

lemma validate_consumes:
  assumes "map_of st sid = Some stored" "\<not> now > expiresAt stored"
    "length (Buffer_from (token stored)) = length (Buffer_from tok)"
  shows "validateCSRFToken tok (Some sid) now st =
           (Inr (Buffer_from (token stored) = Buffer_from tok), AList.delete sid st)"
  using assms by (simp add: validateCSRFToken_def sessionIdOr_def timingSafeEqual_def)

lemma validate_absent:
  assumes "map_of st sid = None"
  shows "validateCSRFToken tok (Some sid) now st = (Inr False, st)"
  using assms by (simp add: validateCSRFToken_def sessionIdOr_def)

lemma toHex_exampleRandom: "toHex exampleRandom = exampleToken"
  by (simp add: toHex_def exampleRandom_def exampleToken_def hexDigit_def js_def)

lemma Buffer_from_exampleToken: "length (Buffer_from exampleToken) = 64"
  by (simp add: exampleToken_def js_def Buffer_from_def utf8CodePoint_def)

lemma generate_example:
  "generateCSRFToken exampleRandom 1000 1000 (Some (js ''sess'')) [] =
     (exampleToken, [(js ''sess'', \<lparr> token = exampleToken, createdAt = 1000, expiresAt = 3601000 \<rparr>)])"
  by (simp add: generateCSRFToken_def Let_def toHex_exampleRandom sessionIdOr_def TOKEN_TTL_def
      MAX_STORED_TOKENS_def)

lemma cleanup_unexpired: "unexpired now st \<Longrightarrow> cleanupExpiredTokens now st = st"
  by (simp add: unexpired_def cleanupExpiredTokens_def list_all_iff)

lemma unexpired_cleanup: "unexpired now (cleanupExpiredTokens now st)"
  by (auto simp: unexpired_def cleanupExpiredTokens_def list_all_iff)

lemma unexpired_update:
  assumes "unexpired now st" "\<not> now > expiresAt v"
  shows "unexpired now (AList.update k v st)"
  using assms by (induction st) (auto simp: unexpired_def)

lemma generate_fresh_key:
  assumes "k \<notin> fst ` set st" "unexpired now st"
  shows "snd (generateCSRFToken rnd now now (Some k) st) =
           st @ [(k, \<lparr> token = toHex rnd, createdAt = now, expiresAt = now + TOKEN_TTL \<rparr>)]"
proof -
  let ?v = "\<lparr> token = toHex rnd, createdAt = now, expiresAt = now + TOKEN_TTL \<rparr>"
  have up: "AList.update k ?v st = st @ [(k, ?v)]"
    using assms(1) by (induction st) auto
  have "unexpired now (AList.update k ?v st)"
    using assms(2) by (rule unexpired_update) (simp add: TOKEN_TTL_def)
  then have "cleanupExpiredTokens now (AList.update k ?v st) = AList.update k ?v st"
    by (rule cleanup_unexpired)
  then show ?thesis
    by (simp add: generateCSRFToken_def Let_def sessionIdOr_def up)
qed

lemma issueFor_grows:
  assumes "distinct ks" "set ks \<inter> fst ` set st = {}" "unexpired now st"
  shows "length (issueFor rnd now ks st) = length st + length ks
         \<and> unexpired now (issueFor rnd now ks st)"
  using assms
proof (induction ks arbitrary: st)
  case Nil
  then show ?case by simp
next
  case (Cons k ks)
  let ?v = "\<lparr> token = toHex rnd, createdAt = now, expiresAt = now + TOKEN_TTL \<rparr>"
  have fresh: "k \<notin> fst ` set st" using Cons.prems by auto
  have st1: "snd (generateCSRFToken rnd now now (Some k) st) = st @ [(k, ?v)]"
    using fresh Cons.prems(3) by (rule generate_fresh_key)
  have "unexpired now (st @ [(k, ?v)])"
    using Cons.prems(3) by (simp add: unexpired_def TOKEN_TTL_def)
  moreover have "set ks \<inter> fst ` set (st @ [(k, ?v)]) = {}" using Cons.prems by auto
  moreover have "distinct ks" using Cons.prems by simp
  ultimately have "length (issueFor rnd now ks (st @ [(k, ?v)])) = length (st @ [(k, ?v)]) + length ks
         \<and> unexpired now (issueFor rnd now ks (st @ [(k, ?v)]))"
    using Cons.IH by blast
  then show ?case by (simp add: st1)
qed

lemma distinct_keys: "distinct (map (\<lambda>i. replicate (Suc i) (c::jschar)) [0..<n])"
proof -
  have "inj_on (\<lambda>i. replicate (Suc i) c) (set [0..<n])"
  proof (rule inj_onI)
    fix i j assume "replicate (Suc i) c = replicate (Suc j) c"
    then have "length (replicate (Suc i) c) = length (replicate (Suc j) c)" by (rule arg_cong)
    then show "i = j" by simp
  qed
  then show ?thesis by (simp add: distinct_map)
qed

lemma length_update_fresh:
  "k \<notin> fst ` set st \<Longrightarrow> length (AList.update k v st) = Suc (length st)"
  by (induction st) auto

lemma set_update_other:
  "(k, s) \<in> set (AList.update k' v st) \<Longrightarrow> k \<noteq> k' \<Longrightarrow> (k, s) \<in> set st"
  by (induction st) (auto split: if_splits)

lemma validate_twice_same_length:
  assumes "map_of st sid = Some stored" "\<not> now > expiresAt stored"
    "length (Buffer_from (token stored)) = length (Buffer_from tok)"
  shows "fst (validateCSRFToken tok2 (Some sid) now2 (snd (validateCSRFToken tok (Some sid) now st)))
           = Inr False"
proof -
  have "snd (validateCSRFToken tok (Some sid) now st) = AList.delete sid st"
    using validate_consumes[OF assms] by simp
  moreover have "map_of (AList.delete sid st) sid = None" by (simp add: delete_conv)
  ultimately show ?thesis by (simp add: validate_absent)
qed

lemma of_nat_ascii:
  assumes "m < 128"
  shows "(of_nat m :: jschar) < 0x80"
proof -
  have "unat (of_nat m :: jschar) = m mod 2 ^ LENGTH(16)" by (rule unat_of_nat)
  also have "\<dots> = m" using assms by simp
  finally show ?thesis using assms by (simp add: word_less_nat_alt)
qed

lemma hexDigit_ascii: "n < 16 \<Longrightarrow> hexDigit n < 0x80"
proof (cases "n < 10")
  case True
  then have "48 + n < 128" by simp
  then have "(of_nat (48 + n) :: jschar) < 0x80" by (rule of_nat_ascii)
  with True show ?thesis by (simp only: hexDigit_def if_True)
next
  case False
  assume "n < 16"
  then have "97 + (n - 10) < 128" by simp
  then have "(of_nat (97 + (n - 10)) :: jschar) < 0x80" by (rule of_nat_ascii)
  with False show ?thesis by (simp only: hexDigit_def if_False)
qed

lemma codePoints_ascii: "\<forall>c\<in>set s. c < 0x80 \<Longrightarrow> codePoints s = map unat s"
proof (induction s rule: codePoints.induct)
  case 1
  then show ?case by simp
next
  case (2 c)
  then have "unat c < 128" by (simp add: word_less_nat_alt)
  then have "\<not> 0xD800 \<le> c" by (simp add: word_le_nat_alt)
  then show ?case by simp
next
  case (3 c d cs)
  then have "unat c < 128" by (simp add: word_less_nat_alt)
  then have a: "\<not> 0xD800 \<le> c" "\<not> 0xDC00 \<le> c"
    by (simp_all add: word_le_nat_alt)
  from "3.prems" have "\<forall>c\<in>set (d # cs). c < 0x80" by simp
  with "3.IH"(4) a have "codePoints (d # cs) = map unat (d # cs)" by blast
  with a show ?case by simp
qed

lemma length_Buffer_from_ascii:
  assumes "\<forall>c\<in>set s. c < 0x80"
  shows "length (Buffer_from s) = length s"
proof -
  have "length (concat (map utf8CodePoint (map unat s))) = length s"
    using assms
  proof (induction s)
    case Nil
    then show ?case by simp
  next
    case (Cons c cs)
    then have "unat c < 128" by (simp add: word_less_nat_alt)
    then have "length (utf8CodePoint (unat c)) = 1" by (simp add: utf8CodePoint_def)
    with Cons show ?case by simp
  qed
  then show ?thesis by (simp add: Buffer_from_def codePoints_ascii[OF assms])
qed

lemma toHex_ascii: "\<forall>c\<in>set (toHex bs). c < 0x80"
proof -
  have "unat b div 16 < 16" for b :: byte
  proof -
    have "unat b < 2 ^ LENGTH(8)" by (rule unsigned_less)
    then show ?thesis by simp
  qed
  then show ?thesis by (auto simp: toHex_def hexDigit_ascii)
qed

lemma length_toHex: "length (toHex bs) = 2 * length bs"
  by (induction bs) (simp_all add: toHex_def)

text \<open>An issued secret of 32 random bytes has 64 bytes as a buffer.\<close>

lemma issued_token_length:
  "length (Buffer_from (fst (generateCSRFToken rnd now now' sessionId st))) = 2 * length rnd"
  by (simp add: generateCSRFToken_def Let_def length_Buffer_from_ascii[OF toHex_ascii] length_toHex)

lemma generate_stores_token:
  assumes "\<not> now' > now + TOKEN_TTL"
  shows "map_of (snd (generateCSRFToken rnd now now' (Some k) st)) k =
           Some \<lparr> token = toHex rnd, createdAt = now, expiresAt = now + TOKEN_TTL \<rparr>"
proof -
  let ?v = "\<lparr> token = toHex rnd, createdAt = now, expiresAt = now + TOKEN_TTL \<rparr>"
  have m: "map_of (AList.update k ?v st) k = Some ?v" by (simp add: update_conv')
  then have "map_of (cleanupExpiredTokens now' (AList.update k ?v st)) k = Some ?v"
    unfolding cleanupExpiredTokens_def using assms by (intro map_of_filter_in) simp_all
  with m show ?thesis
    by (simp add: generateCSRFToken_def Let_def sessionIdOr_def)
qed

text \<open>
  The extent of the defect: whatever the store, a validation with a secret of another
  byte length than the issued one throws and leaves the issued secret valid.
\<close>

lemma length_mismatch_keeps_token_valid:
  assumes len: "length (Buffer_from guess) \<noteq> 2 * length rnd"
    and t: "\<not> now' > now + TOKEN_TTL" "\<not> t1 > now + TOKEN_TTL" "\<not> t2 > now + TOKEN_TTL"
  shows "(let g = generateCSRFToken rnd now now' (Some k) st;
              v1 = validateCSRFToken guess (Some k) t1 (snd g);
              v2 = validateCSRFToken (fst g) (Some k) t2 (snd v1)
          in fst v1 = Inl RangeError \<and> snd v1 = snd g \<and> fst v2 = Inr True)"
proof -
  define g where "g = generateCSRFToken rnd now now' (Some k) st"
  let ?v = "\<lparr> token = toHex rnd, createdAt = now, expiresAt = now + TOKEN_TTL \<rparr>"
  have tok: "fst g = toHex rnd" by (simp add: g_def generateCSRFToken_def Let_def)
  have look: "map_of (snd g) k = Some ?v"
    unfolding g_def using t(1) by (rule generate_stores_token)
  have l64: "length (Buffer_from (toHex rnd)) = 2 * length rnd"
    by (simp add: length_Buffer_from_ascii[OF toHex_ascii] length_toHex)
  have v1: "validateCSRFToken guess (Some k) t1 (snd g) = (Inl RangeError, snd g)"
    using look by (rule validate_throws) (use t(2) len l64 in simp_all)
  have v2: "validateCSRFToken (toHex rnd) (Some k) t2 (snd g) =
              (Inr (Buffer_from (token ?v) = Buffer_from (toHex rnd)), AList.delete k (snd g))"
    using look by (rule validate_consumes) (use t(3) in simp_all)
  show ?thesis
    unfolding Let_def g_def[symmetric] by (simp add: v1 tok v2)
qed

lemma length_update_known:
  "length (AList.update k v st) = (if map_of st k = None then Suc (length st) else length st)"
  by (induction st) auto

lemma map_of_cleanup:
  assumes "distinct (map fst st)"
  shows "map_of (cleanupExpiredTokens now st) k =
           (case map_of st k of None \<Rightarrow> None
            | Some stored \<Rightarrow> if now > expiresAt stored then None else Some stored)"
  using assms
proof (induction st)
  case Nil
  then show ?case by (simp add: cleanupExpiredTokens_def)
next
  case (Cons p st)
  obtain k' s where p: "p = (k', s)" by (cases p)
  from Cons.prems p have fresh: "k' \<notin> fst ` set st" and d: "distinct (map fst st)" by auto
  from fresh have none: "map_of st k' = None" by (simp add: map_of_eq_None_iff)
  have IH: "map_of (cleanupExpiredTokens now st) k =
           (case map_of st k of None \<Rightarrow> None
            | Some stored \<Rightarrow> if now > expiresAt stored then None else Some stored)"
    using d by (rule Cons.IH)
  show ?case
  proof (cases "k = k'")
    case True
    with IH none have "map_of (cleanupExpiredTokens now st) k = None" by simp
    then show ?thesis using True p by (simp add: cleanupExpiredTokens_def)
  next
    case False
    then show ?thesis using IH p by (simp add: cleanupExpiredTokens_def)
  qed
qed

lemma distinct_cleanup:
  "distinct (map fst st) \<Longrightarrow> distinct (map fst (cleanupExpiredTokens now st))"
  unfolding cleanupExpiredTokens_def by (rule distinct_map_filter)

lemma fullStore_keys:
  "distinct (map fst fullStore)" "map_of fullStore (js ''new'') = None"
  "map_of fullStore (js ''old'') = Some staleToken" "map_of fullStore (js ''live'') = Some liveToken"
  "length fullStore = 100"
proof -
  have "distinct (map (\<lambda>i. replicate (Suc i) (0x61::jschar)) [0..<98])" by (rule distinct_keys)
  then show "distinct (map fst fullStore)"
    by (auto simp: fullStore_def js_def o_def Cons_replicate_eq)
  have "js ''new'' \<notin> fst ` set fullStore"
    by (auto simp: fullStore_def js_def Cons_replicate_eq)
  then show "map_of fullStore (js ''new'') = None" by (simp add: map_of_eq_None_iff)
  show "map_of fullStore (js ''old'') = Some staleToken" by (simp add: fullStore_def)
  show "map_of fullStore (js ''live'') = Some liveToken" by (simp add: fullStore_def js_def)
  show "length fullStore = 100" by (simp add: fullStore_def)
qed

subsection \<open>One-time use\<close>

text \<open>
  Claim C1 says that after \<open>generateCSRFToken(k)\<close> has returned \<open>s\<close>, a first
  \<open>validateCSRFToken\<close> with any supplied secret removes the entry, so that a second
  \<open>validateCSRFToken(s, k)\<close> returns false. The code compares with
  \<open>crypto.timingSafeEqual\<close>, which throws when the supplied secret does not have the
  byte length of the stored one (64), and the \<open>delete\<close> follows the comparison: the
  exception skips it. Here a token is issued for the session \<open>sess\<close>, a first
  validation with the five-byte secret \<open>guess\<close> throws \<open>RangeError\<close> and leaves the
  store as it was, and a second validation with the issued secret returns true.
  Lemma \<open>length_mismatch_keeps_token_valid\<close> is the same for every store, session
  and secret of another length; when the supplied secret has the length of the stored
  one, the entry is consumed and a second validation returns false (lemma
  \<open>validate_twice_same_length\<close>).
\<close>

theorem second_validation_succeeds_after_length_mismatch:
  "(let g = generateCSRFToken exampleRandom 1000 1000 (Some (js ''sess'')) [];
        v1 = validateCSRFToken (js ''guess'') (Some (js ''sess'')) 2000 (snd g);
        v2 = validateCSRFToken (fst g) (Some (js ''sess'')) 3000 (snd v1)
    in fst g = exampleToken \<and> fst v1 = Inl RangeError \<and> snd v1 = snd g \<and> fst v2 = Inr True)"
proof -
  define stored where
    "stored = \<lparr> token = exampleToken, createdAt = 1000, expiresAt = 3601000 \<rparr>"
  define st where "st = [(js ''sess'', stored)]"
  have g: "generateCSRFToken exampleRandom 1000 1000 (Some (js ''sess'')) [] = (exampleToken, st)"
    by (simp add: generate_example st_def stored_def)
  have look: "map_of st (js ''sess'') = Some stored" by (simp add: st_def)
  have "length (Buffer_from (js ''guess'')) = 5"
    by (simp add: js_def Buffer_from_def utf8CodePoint_def)
  then have v1: "validateCSRFToken (js ''guess'') (Some (js ''sess'')) 2000 st = (Inl RangeError, st)"
    using look by (intro validate_throws[where stored=stored])
      (simp_all add: stored_def Buffer_from_exampleToken)
  have v2: "validateCSRFToken exampleToken (Some (js ''sess'')) 3000 st =
              (Inr (Buffer_from (token stored) = Buffer_from exampleToken), AList.delete (js ''sess'') st)"
    using look by (intro validate_consumes) (simp_all add: stored_def)
  show ?thesis
    by (simp add: g v1 v2 Let_def) (simp add: stored_def)
qed

subsection \<open>Validation returns a boolean and consumes the token\<close>

text \<open>
  Claim C4 says that for a live stored token and a supplied secret of any length,
  the empty string included, \<open>validateCSRFToken\<close> returns a boolean and never throws,
  and that the entry is deleted before the result is returned. Here the supplied
  secret is the empty string: the call throws \<open>RangeError\<close> instead of returning, and
  the entry of the session is still in the store afterwards.
\<close>

theorem validation_throws_and_keeps_entry:
  "(let g = generateCSRFToken exampleRandom 1000 1000 (Some (js ''sess'')) [];
        v = validateCSRFToken [] (Some (js ''sess'')) 2000 (snd g)
    in fst v = Inl RangeError
     \<and> map_of (snd v) (js ''sess'') =
         Some \<lparr> token = exampleToken, createdAt = 1000, expiresAt = 3601000 \<rparr>)"
proof -
  define stored where
    "stored = \<lparr> token = exampleToken, createdAt = 1000, expiresAt = 3601000 \<rparr>"
  define st where "st = [(js ''sess'', stored)]"
  have g: "generateCSRFToken exampleRandom 1000 1000 (Some (js ''sess'')) [] = (exampleToken, st)"
    by (simp add: generate_example st_def stored_def)
  have look: "map_of st (js ''sess'') = Some stored" by (simp add: st_def)
  have "length (Buffer_from []) = 0"
    by (simp add: Buffer_from_def)
  then have v: "validateCSRFToken [] (Some (js ''sess'')) 2000 st = (Inl RangeError, st)"
    using look by (intro validate_throws[where stored=stored])
      (simp_all add: stored_def Buffer_from_exampleToken)
  show ?thesis
    by (simp add: g v Let_def look) (simp add: stored_def)
qed

subsection \<open>Size of the token store\<close>

text \<open>
  Claim C5 says that the token store is bounded in size: that an issuance which finds
  more than 100 entries runs a cleanup with eviction before it inserts, so that the
  store cannot grow without bound even when all stored tokens are unexpired. The
  cleanup of the code removes expired entries only. Here tokens are issued at one
  clock reading for 150 distinct session keys, starting from the empty store: the
  store then holds 150 entries, above \<open>MAX_STORED_TOKENS\<close>, none of them expired.
\<close>

theorem token_store_exceeds_capacity:
  "length (issueFor exampleRandom 0 (map (\<lambda>i. replicate (Suc i) 0x61) [0..<150]) []) = 150
   \<and> MAX_STORED_TOKENS < 150
   \<and> list_all (\<lambda>(sessionId, stored). \<not> 0 > expiresAt stored)
        (issueFor exampleRandom 0 (map (\<lambda>i. replicate (Suc i) 0x61) [0..<150]) [])"
proof -
  have "unexpired 0 []" by (simp add: unexpired_def)
  moreover have "set (map (\<lambda>i. replicate (Suc i) (0x61::jschar)) [0..<150]) \<inter> fst ` set ([]::TokenStore) = {}"
    by simp
  ultimately have "length (issueFor exampleRandom 0 (map (\<lambda>i. replicate (Suc i) 0x61) [0..<150]) [])
       = length ([]::TokenStore) + length (map (\<lambda>i. replicate (Suc i) (0x61::jschar)) [0..<150])
     \<and> unexpired 0 (issueFor exampleRandom 0 (map (\<lambda>i. replicate (Suc i) 0x61) [0..<150]) [])"
    using distinct_keys[where c="0x61" and n=150] by (intro issueFor_grows)
  then show ?thesis by (simp add: unexpired_def MAX_STORED_TOKENS_def)
qed

text \<open>
  Claim C5 as amended. An issuance returns the secret and stores the new token under
  its session key, in place of any earlier token of that key. Then, only when the
  store holds more than \<open>MAX_STORED_TOKENS\<close> (100) entries, the new one counted, it
  removes every entry that has expired at the cleanup's clock reading, and no other
  entry. A store of at most 100 entries is left as the insertion made it, expired
  entries included. An unexpired token is never evicted. (The store is the module's
  \<open>Map\<close>: its keys are distinct, and stay so.)
\<close>

theorem issuance_stores_then_cleans_expired:
  assumes "distinct (map fst st)"
  shows "(let k = sessionIdOr sessionId;
              g = generateCSRFToken rnd now now' sessionId st;
              v = \<lparr> token = fst g, createdAt = now, expiresAt = now + TOKEN_TTL \<rparr>;
              inserted = (map_of st)(k \<mapsto> v);
              n = (if map_of st k = None then Suc (length st) else length st)
          in fst g = toHex rnd
           \<and> distinct (map fst (snd g))
           \<and> (if n > MAX_STORED_TOKENS
               then map_of (snd g) =
                      (\<lambda>k'. case inserted k' of None \<Rightarrow> None
                            | Some stored \<Rightarrow> if now' > expiresAt stored then None else Some stored)
                    \<and> length (snd g) \<le> n
               else map_of (snd g) = inserted \<and> length (snd g) = n))"
proof -
  let ?k = "sessionIdOr sessionId"
  let ?v = "\<lparr> token = toHex rnd, createdAt = now, expiresAt = now + TOKEN_TTL \<rparr>"
  let ?st1 = "AList.update ?k ?v st"
  let ?n = "if map_of st ?k = None then Suc (length st) else length st"
  have tok: "fst (generateCSRFToken rnd now now' sessionId st) = toHex rnd"
    by (simp add: generateCSRFToken_def Let_def)
  have st': "snd (generateCSRFToken rnd now now' sessionId st) =
               (if ?n > MAX_STORED_TOKENS then cleanupExpiredTokens now' ?st1 else ?st1)"
    by (simp add: generateCSRFToken_def Let_def length_update_known)
  have d1: "distinct (map fst ?st1)" using assms by (rule distinct_update)
  have m1: "map_of ?st1 = (map_of st)(?k \<mapsto> ?v)" by (rule update_conv')
  have l1: "length ?st1 = ?n" by (rule length_update_known)
  have big: "map_of (cleanupExpiredTokens now' ?st1) =
               (\<lambda>k'. case ((map_of st)(?k \<mapsto> ?v)) k' of None \<Rightarrow> None
                     | Some stored \<Rightarrow> if now' > expiresAt stored then None else Some stored)"
    unfolding m1[symmetric] by (rule ext) (rule map_of_cleanup[OF d1])
  have lbig: "length (cleanupExpiredTokens now' ?st1) \<le> ?n"
    unfolding l1[symmetric] by (simp add: cleanupExpiredTokens_def)
  show ?thesis
  proof (cases "?n > MAX_STORED_TOKENS")
    case True
    then have s: "snd (generateCSRFToken rnd now now' sessionId st) = cleanupExpiredTokens now' ?st1"
      using st' by simp
    show ?thesis
      unfolding Let_def tok s using True big lbig distinct_cleanup[OF d1] by simp
  next
    case False
    then have s: "snd (generateCSRFToken rnd now now' sessionId st) = ?st1"
      using st' by simp
    show ?thesis
      unfolding Let_def tok s using False m1 l1 d1 by simp
  qed
qed

theorem issuance_stores_then_cleans_expired_witness:
  "distinct (map fst fullStore) \<and> length fullStore = 100
   \<and> map_of (snd (generateCSRFToken exampleRandom 7000000 7000000 (Some (js ''new'')) fullStore))
        (js ''new'')
       = Some \<lparr> token = exampleToken, createdAt = 7000000, expiresAt = 10600000 \<rparr>
   \<and> map_of (snd (generateCSRFToken exampleRandom 7000000 7000000 (Some (js ''new'')) fullStore))
        (js ''live'') = Some liveToken
   \<and> map_of (snd (generateCSRFToken exampleRandom 7000000 7000000 (Some (js ''new'')) fullStore))
        (js ''old'') = None
   \<and> distinct (map fst [(js ''old'', staleToken)])
   \<and> map_of (snd (generateCSRFToken exampleRandom 7000000 7000000 (Some (js ''new''))
                   [(js ''old'', staleToken)])) (js ''new'')
       = Some \<lparr> token = exampleToken, createdAt = 7000000, expiresAt = 10600000 \<rparr>
   \<and> map_of (snd (generateCSRFToken exampleRandom 7000000 7000000 (Some (js ''new''))
                   [(js ''old'', staleToken)])) (js ''old'') = Some staleToken
   \<and> length (snd (generateCSRFToken exampleRandom 7000000 7000000 (Some (js ''new''))
                   [(js ''old'', staleToken)])) = 2"
proof -
  let ?v = "\<lparr> token = exampleToken, createdAt = 7000000, expiresAt = 10600000 \<rparr>"
  define g1 where "g1 = generateCSRFToken exampleRandom 7000000 7000000 (Some (js ''new'')) fullStore"
  define g2 where "g2 = generateCSRFToken exampleRandom 7000000 7000000 (Some (js ''new''))
                          [(js ''old'', staleToken)]"
  have ne: "js ''old'' \<noteq> js ''new''" "js ''live'' \<noteq> js ''new''" by (simp_all add: js_def)
  have d2: "distinct (map fst [(js ''old'', staleToken)])" by simp
  from issuance_stores_then_cleans_expired[OF fullStore_keys(1),
      of "Some (js ''new'')" exampleRandom 7000000 7000000]
  have m1: "map_of (snd g1) =
      (\<lambda>k'. case ((map_of fullStore)(js ''new'' \<mapsto> ?v)) k' of None \<Rightarrow> None
            | Some stored \<Rightarrow> if 7000000 > expiresAt stored then None else Some stored)"
    unfolding Let_def g1_def[symmetric]
    by (auto simp: sessionIdOr_def fullStore_keys MAX_STORED_TOKENS_def TOKEN_TTL_def
        toHex_exampleRandom)
  from issuance_stores_then_cleans_expired[OF d2,
      of "Some (js ''new'')" exampleRandom 7000000 7000000]
  have m2: "map_of (snd g2) = [js ''old'' \<mapsto> staleToken, js ''new'' \<mapsto> ?v]"
    and l2: "length (snd g2) = 2"
    unfolding Let_def g2_def[symmetric] using ne
    by (auto simp: sessionIdOr_def MAX_STORED_TOKENS_def TOKEN_TTL_def toHex_exampleRandom)
  have a: "map_of (snd g1) (js ''new'') = Some ?v" by (simp add: m1)
  have b: "map_of (snd g1) (js ''live'') = Some liveToken"
    using ne by (simp add: m1 fullStore_keys liveToken_def)
  have c: "map_of (snd g1) (js ''old'') = None"
    using ne by (simp add: m1 fullStore_keys staleToken_def)
  have d: "map_of (snd g2) (js ''new'') = Some ?v" by (simp add: m2)
  have e: "map_of (snd g2) (js ''old'') = Some staleToken" using ne by (simp add: m2)
  from a b c d e l2 d2 fullStore_keys(1,5) show ?thesis
    unfolding g1_def g2_def by blast
qed

section \<open>Regular expressions and sanitization: proofs\<close>

lemma rmatch_suffix: "s' \<in> set (rmatch r s) \<Longrightarrow> \<exists>p. s = p @ s'"
proof (induction r s arbitrary: s' rule: rmatch.induct)
  case (1 s)
  then have "s = [] @ s'" by simp
  then show ?case by (rule exI)
next
  case (2 q s)
  show ?case
  proof (cases s)
    case Nil
    with "2.prems" show ?thesis by simp
  next
    case (Cons c cs)
    with "2.prems" have "s' = cs" by (simp split: if_splits)
    with Cons have "s = [c] @ s'" by simp
    then show ?thesis by (rule exI)
  qed
next
  case (3 a b s)
  from "3.prems" obtain s1 where s1: "s1 \<in> set (rmatch a s)" and s': "s' \<in> set (rmatch b s1)"
    by auto
  from "3.IH"(1)[OF s1] obtain p1 where "s = p1 @ s1" by blast
  moreover from "3.IH"(2)[OF s1 s'] obtain p2 where "s1 = p2 @ s'" by blast
  ultimately have "s = (p1 @ p2) @ s'" by simp
  then show ?case by (rule exI)
next
  case (4 a s)
  from "4.prems" have "s' = s \<or> s' \<in> set (rmatch a s)" by simp
  then have "s' \<in> set (rmatch a s) \<or> s' = s" by (simp only: disj_commute)
  then show ?case
  proof
    assume "s' \<in> set (rmatch a s)"
    then show ?thesis by (rule "4.IH")
  next
    assume "s' = s"
    then have "s = [] @ s'" by simp
    then show ?thesis by (rule exI)
  qed
next
  case (5 a s)
  note unfold = rmatch.simps(5)[of a s]
  from "5.prems"
  have "s' \<in> set (concat (map (\<lambda>s1. if length s1 < length s then rmatch (Star a) s1 else [])
                 (rmatch a s)) @ [s])"
    by (simp only: unfold)
  then consider "s' = s"
    | s1 where "s1 \<in> set (rmatch a s)" "length s1 < length s" "s' \<in> set (rmatch (Star a) s1)"
    by (auto simp del: rmatch.simps split: if_splits)
  then show ?case
  proof cases
    case 1
    then have "s = [] @ s'" by simp
    then show ?thesis by (rule exI)
  next
    case 2
    from "5.IH"(1)[OF 2(1)] obtain p1 where "s = p1 @ s1" by blast
    moreover from "5.IH"(2)[OF 2(1,2,3)] obtain p2 where "s1 = p2 @ s'" by blast
    ultimately have "s = (p1 @ p2) @ s'" by simp
    then show ?thesis by (rule exI)
  qed
next
  case (6 a s)
  note unfold = rmatch.simps(6)[of a s]
  from "6.prems"
  have "s' \<in> set (s # concat (map (\<lambda>s1. if length s1 < length s then rmatch (Lazy a) s1 else [])
                 (rmatch a s)))"
    by (simp only: unfold)
  then consider "s' = s"
    | s1 where "s1 \<in> set (rmatch a s)" "length s1 < length s" "s' \<in> set (rmatch (Lazy a) s1)"
    by (auto simp del: rmatch.simps split: if_splits)
  then show ?case
  proof cases
    case 1
    then have "s = [] @ s'" by simp
    then show ?thesis by (rule exI)
  next
    case 2
    from "6.IH"(1)[OF 2(1)] obtain p1 where "s = p1 @ s1" by blast
    moreover from "6.IH"(2)[OF 2(1,2,3)] obtain p2 where "s1 = p2 @ s'" by blast
    ultimately have "s = (p1 @ p2) @ s'" by simp
    then show ?thesis by (rule exI)
  qed
qed

lemma rmatch_subset: "s' \<in> set (rmatch r s) \<Longrightarrow> set s' \<subseteq> set s"
  by (drule rmatch_suffix) auto

lemma rmatch_length: "s' \<in> set (rmatch r s) \<Longrightarrow> length s' \<le> length s"
  by (drule rmatch_suffix) auto

lemma rmatch_seq_blocked:
  assumes "Chr p \<in> set rs" "\<forall>c\<in>set s. \<not> p c"
  shows "rmatch (seq rs) s = []"
  using assms
proof (induction rs arbitrary: s)
  case Nil
  then show ?case by simp
next
  case (Cons r rs)
  have sq: "seq (r # rs) = Seq r (seq rs)" by (simp add: seq_def)
  show ?case
  proof (cases "r = Chr p")
    case True
    have "rmatch (Chr p) s = []" using Cons.prems(2) by (cases s) auto
    then have "concat (map (rmatch (seq rs)) (rmatch (Chr p) s)) = []" by simp
    then have "rmatch (Seq (Chr p) (seq rs)) s = []" by (simp only: rmatch.simps(3))
    then show ?thesis using sq True by simp
  next
    case False
    with Cons.prems have mem: "Chr p \<in> set rs" by simp
    have "rmatch (seq rs) s1 = []" if "s1 \<in> set (rmatch r s)" for s1
    proof -
      from rmatch_subset[OF that] Cons.prems(2) have "\<forall>c\<in>set s1. \<not> p c" by blast
      with mem show ?thesis by (rule Cons.IH)
    qed
    then have "concat (map (rmatch (seq rs)) (rmatch r s)) = []" by simp
    then have "rmatch (Seq r (seq rs)) s = []" by (simp only: rmatch.simps(3))
    then show ?thesis using sq by simp
  qed
qed

lemma replaceAll_blocked:
  assumes "Chr p \<in> set rs" "\<forall>c\<in>set s. \<not> p c"
  shows "replaceAll (seq rs) rep s = s"
  using assms(2)
proof (induction s)
  case Nil
  have "rmatch (seq rs) [] = []" using assms(1) by (rule rmatch_seq_blocked) simp
  then show ?case by (simp add: replaceAll.simps[of _ _ "[]"])
next
  case (Cons c cs)
  have "rmatch (seq rs) (c # cs) = []" using assms(1) Cons.prems by (rule rmatch_seq_blocked)
  moreover have "replaceAll (seq rs) rep cs = cs" using Cons by simp
  ultimately show ?case by (simp add: replaceAll.simps[of _ _ "c # cs"])
qed

text \<open>Replacing the code units of a class one by one.\<close>

lemma replaceAll_class:
  "replaceAll (seq [Chr p]) rep s = concat (map (\<lambda>c. if p c then rep else [c]) s)"
proof (induction s)
  case Nil
  then show ?case by (simp add: replaceAll.simps[of _ _ "[]"] seq_def)
next
  case (Cons c cs)
  have m: "rmatch (seq [Chr p]) (c # cs) = (if p c then [cs] else [])"
    by (simp add: seq_def)
  show ?case
    using Cons by (simp add: replaceAll.simps[of _ _ "c # cs"] m)
qed

lemma replaceAll_class_all:
  assumes "list_all Q s" "list_all Q rep"
  shows "list_all Q (replaceAll (seq [Chr p]) rep s)"
  using assms by (auto simp: replaceAll_class list_all_iff)

lemma replaceAll_class_gone:
  assumes "\<forall>c\<in>set rep. \<not> p c"
  shows "\<forall>c\<in>set (replaceAll (seq [Chr p]) rep s). \<not> p c"
  using assms by (auto simp: replaceAll_class split: if_splits)


lemma replaceAll_delete_subset: "set (replaceAll r [] s) \<subseteq> set s"
proof (induction r "[]::jsstring" s rule: replaceAll.induct)
  case (1 r s)
  show ?case
  proof (cases "rmatch r s")
    case Nil
    show ?thesis
    proof (cases s)
      case Nil
      then show ?thesis using \<open>rmatch r s = []\<close> by (simp add: replaceAll.simps[of _ _ "[]"])
    next
      case (Cons c cs)
      from "1.hyps"(1)[OF \<open>rmatch r s = []\<close> Cons]
      have "set (replaceAll r [] cs) \<subseteq> set cs" .
      then show ?thesis
        using \<open>rmatch r s = []\<close> Cons
        by (auto simp: replaceAll.simps[of _ _ "c # cs"])
    qed
  next
    case (Cons s' ss)
    then have "s' \<in> set (rmatch r s)" by simp
    from rmatch_subset[OF this] have sub: "set s' \<subseteq> set s" .
    show ?thesis
    proof (cases "length s' < length s")
      case True
      from "1.hyps"(2)[OF Cons True] have "set (replaceAll r [] s') \<subseteq> set s'" .
      with sub show ?thesis
        using Cons True by (subst replaceAll.simps) auto
    next
      case False
      show ?thesis
      proof (cases s)
        case Nil
        then show ?thesis using Cons by (simp add: replaceAll.simps[of _ _ "[]"])
      next
        case (Cons c cs)
        from "1.hyps"(3)[OF \<open>rmatch r s = s' # ss\<close> False Cons]
        have "set (replaceAll r [] cs) \<subseteq> set cs" .
        then show ?thesis
          using \<open>rmatch r s = s' # ss\<close> False Cons
          by (auto simp: replaceAll.simps[of _ _ "c # cs"])
      qed
    qed
  qed
qed

lemma replaceAll_literal_blocked:
  assumes "Chr (sameLetter k) \<in> set rs"
    and "\<not> (0x41 \<le> k \<and> k \<le> 0x5A)" "\<not> (0x61 \<le> k \<and> k \<le> 0x7A)"
    and "k \<notin> set s"
  shows "replaceAll (seq rs) rep s = s"
proof (rule replaceAll_blocked[OF assms(1)])
  show "\<forall>c\<in>set s. \<not> sameLetter k c"
    using assms(2,3,4) by (auto simp: sameLetter_def)
qed

lemma replaceAll_exact_blocked:
  assumes "k \<notin> set s"
  shows "replaceAll (seq [Chr (\<lambda>d. d = k)]) rep s = s"
  by (rule replaceAll_blocked[where p="\<lambda>d. d = k"]) (use assms in auto)

lemma stripControl_filter: "stripControl s = filter (\<lambda>c. \<not> isControl c) s"
  unfolding stripControl_def replaceAll_class by (induction s) auto

lemma set_stripDangerous: "set (stripDangerous s) \<subseteq> set s"
proof -
  have "set (foldl (\<lambda>sanitized pattern. replaceAll pattern [] sanitized) s ps) \<subseteq> set s" for ps
  proof (induction ps arbitrary: s)
    case Nil
    then show ?case by simp
  next
    case (Cons p ps)
    have "set (foldl (\<lambda>sanitized pattern. replaceAll pattern [] sanitized) (replaceAll p [] s) ps)
            \<subseteq> set (replaceAll p [] s)" by (rule Cons.IH)
    also have "\<dots> \<subseteq> set s" by (rule replaceAll_delete_subset)
    finally show ?case by simp
  qed
  then show ?thesis by (simp add: stripDangerous_def)
qed

lemma stripDangerous_id:
  assumes "0x3A \<notin> set s" "0x3D \<notin> set s" "0x3C \<notin> set s" "0x28 \<notin> set s" "0x40 \<notin> set s"
    "0x26 \<notin> set s"
  shows "stripDangerous s = s"
proof -
  have colon: "replaceAll (seq rs) [] s = s" if "Chr (sameLetter 0x3A) \<in> set rs" for rs
    using that by (rule replaceAll_literal_blocked) (simp_all add: assms)
  have eq: "replaceAll (seq rs) [] s = s" if "Chr (sameLetter 0x3D) \<in> set rs" for rs
    using that by (rule replaceAll_literal_blocked) (simp_all add: assms)
  have lt: "replaceAll (seq rs) [] s = s" if "Chr (sameLetter 0x3C) \<in> set rs" for rs
    using that by (rule replaceAll_literal_blocked) (simp_all add: assms)
  have paren: "replaceAll (seq rs) [] s = s" if "Chr (sameLetter 0x28) \<in> set rs" for rs
    using that by (rule replaceAll_literal_blocked) (simp_all add: assms)
  have at: "replaceAll (seq rs) [] s = s" if "Chr (sameLetter 0x40) \<in> set rs" for rs
    using that by (rule replaceAll_literal_blocked) (simp_all add: assms)
  have amp: "replaceAll (seq rs) [] s = s" if "Chr (sameLetter 0x26) \<in> set rs" for rs
    using that by (rule replaceAll_literal_blocked) (simp_all add: assms)
  have tag: "replaceAll (tagPair name) [] s = s" for name
    unfolding tagPair_def by (rule lt) (simp add: litI_def)
  have p1: "replaceAll (seq (litI ''javascript:'')) [] s = s"
    by (rule colon) (simp add: litI_def)
  have p2: "replaceAll (seq (litI ''data:text/html'')) [] s = s"
    by (rule colon) (simp add: litI_def)
  have p3: "replaceAll (seq (litI ''vbscript:'')) [] s = s"
    by (rule colon) (simp add: litI_def)
  have p4: "replaceAll (seq (litI ''on'' @ [Plus (Chr isWord), Star (Chr isSpace)] @ litI ''='')) [] s = s"
    by (rule eq) (simp add: litI_def)
  have p10: "replaceAll (seq (litI ''<input'' @ [Star notGt] @ litI ''>'')) [] s = s"
    by (rule lt) (simp add: litI_def)
  have p12: "replaceAll (seq (litI ''expression'' @ [Star (Chr isSpace)] @ litI ''('')) [] s = s"
    by (rule paren) (simp add: litI_def)
  have p13: "replaceAll (seq (litI ''@import'')) [] s = s"
    by (rule at) (simp add: litI_def)
  have p14: "replaceAll (seq (litI ''&#x'' @ [Plus (Chr isHexDigit)] @ litI '';'')) [] s = s"
    by (rule amp) (simp add: litI_def)
  have p15: "replaceAll (seq (litI ''&#'' @ [Plus (Chr isDigit)] @ litI '';'')) [] s = s"
    by (rule amp) (simp add: litI_def)
  have p16: "replaceAll (seq (litI ''from'' @ [Star (Chr isSpace)] @ litI ''('' @ [Star (Chr isSpace)]
            @ [Chr (\<lambda>c. c = 0x27 \<or> c = 0x22)] @ [Star (Chr isSpace)] @ litI ''javascript'')) [] s = s"
    by (rule paren) (simp add: litI_def)
  show ?thesis
    unfolding stripDangerous_def DANGEROUS_PATTERNS_def
    by (simp only: foldl.simps p1 p2 p3 p4 tag p10 p12 p13 p14 p15 p16)
qed

lemma encodeEntities_id:
  assumes "0x26 \<notin> set s" "0x3C \<notin> set s" "0x3E \<notin> set s" "0x22 \<notin> set s" "0x27 \<notin> set s"
    "0x2F \<notin> set s"
  shows "encodeEntities s = s"
  using assms by (simp add: encodeEntities_def seq_def[symmetric] lit_def replaceAll_exact_blocked)

lemma replaceAll_exact_gone:
  assumes "k \<notin> set rep"
  shows "k \<notin> set (replaceAll (seq [Chr (\<lambda>d. d = k)]) rep s)"
  using replaceAll_class_gone[where p="\<lambda>d. d = k" and rep=rep and s=s] assms by auto

lemma replaceAll_exact_keeps:
  assumes "d \<notin> set s" "d \<notin> set rep"
  shows "d \<notin> set (replaceAll (seq [Chr (\<lambda>c. c = k)]) rep s)"
  using replaceAll_class_all[where Q="\<lambda>c. c \<noteq> d" and s=s and rep=rep and p="\<lambda>c. c = k"] assms
  by (auto simp: list_all_iff)

lemma encodeEntities_no_raw:
  "0x3C \<notin> set (encodeEntities s)" "0x3E \<notin> set (encodeEntities s)"
  "0x22 \<notin> set (encodeEntities s)" "0x27 \<notin> set (encodeEntities s)"
  "0x2F \<notin> set (encodeEntities s)"
  unfolding encodeEntities_def lit_def list.map
  by (simp_all add: js_def replaceAll_exact_gone replaceAll_exact_keeps)

lemma encodeEntities_keeps:
  assumes "list_all Q s"
    and "list_all Q (js ''&amp;'')" "list_all Q (js ''&lt;'')" "list_all Q (js ''&gt;'')"
    and "list_all Q (js ''&quot;'')" "list_all Q (js ''&#x27;'')" "list_all Q (js ''&#x2F;'')"
  shows "list_all Q (encodeEntities s)"
  unfolding encodeEntities_def lit_def list.map
  by (intro replaceAll_class_all assms)

lemma stripTags_id:
  assumes "0x3C \<notin> set s"
  shows "stripTags s = s"
  unfolding stripTags_def lit_def list.map
  by (rule replaceAll_blocked[where p="\<lambda>d. d = 0x3C"]) (use assms in auto)

lemma set_trim: "set (trim s) \<subseteq> set s"
proof -
  have "set (dropWhile isSpace (rev (dropWhile isSpace s))) \<subseteq> set (rev (dropWhile isSpace s))"
    by (rule set_dropWhileD[THEN subsetI])
  also have "\<dots> \<subseteq> set s" using set_dropWhileD[of _ isSpace s] by auto
  finally show ?thesis by (simp add: trim_def)
qed

lemma set_sanitizeInput_subset:
  "set (sanitizeInput x) \<subseteq> set (encodeEntities (stripDangerous (stripControl x)))"
proof (cases "x = []")
  case True
  then show ?thesis by (simp add: sanitizeInput_def)
next
  case False
  let ?e = "encodeEntities (stripDangerous (stripControl x))"
  have st: "stripTags ?e = ?e" by (rule stripTags_id) (rule encodeEntities_no_raw)
  have "set (take 2000 (trim ?e)) \<subseteq> set (trim ?e)"
    by (rule set_take_subset)
  also have "\<dots> \<subseteq> set ?e" by (rule set_trim)
  finally show ?thesis using False by (simp add: sanitizeInput_def st)
qed

text \<open>What every sanitized value satisfies.\<close>

lemma sanitizeInput_output:
  "0x3C \<notin> set (sanitizeInput x)" "0x3E \<notin> set (sanitizeInput x)"
  "0x22 \<notin> set (sanitizeInput x)" "0x27 \<notin> set (sanitizeInput x)"
  "0x2F \<notin> set (sanitizeInput x)"
  "list_all (\<lambda>c. \<not> isControl c) (sanitizeInput x)"
  "length (sanitizeInput x) \<le> 2000"
proof -
  note sub = set_sanitizeInput_subset[of x]
  show "0x3C \<notin> set (sanitizeInput x)" using sub encodeEntities_no_raw(1) by blast
  show "0x3E \<notin> set (sanitizeInput x)" using sub encodeEntities_no_raw(2) by blast
  show "0x22 \<notin> set (sanitizeInput x)" using sub encodeEntities_no_raw(3) by blast
  show "0x27 \<notin> set (sanitizeInput x)" using sub encodeEntities_no_raw(4) by blast
  show "0x2F \<notin> set (sanitizeInput x)" using sub encodeEntities_no_raw(5) by blast
  have "list_all (\<lambda>c. \<not> isControl c) (stripControl x)"
    by (simp add: stripControl_filter list_all_iff)
  then have "list_all (\<lambda>c. \<not> isControl c) (stripDangerous (stripControl x))"
    using set_stripDangerous[of "stripControl x"] by (auto simp: list_all_iff)
  then have "list_all (\<lambda>c. \<not> isControl c) (encodeEntities (stripDangerous (stripControl x)))"
    by (rule encodeEntities_keeps) (simp_all add: js_def isControl_def)
  then show "list_all (\<lambda>c. \<not> isControl c) (sanitizeInput x)"
    using sub by (auto simp: list_all_iff)
  show "length (sanitizeInput x) \<le> 2000" by (simp add: sanitizeInput_def)
qed

text \<open>A value the pipeline leaves as it is.\<close>

lemma sanitizeInput_fixed:
  assumes ctl: "list_all (\<lambda>c. \<not> isControl c) y"
    and raw: "0x3C \<notin> set y" "0x3E \<notin> set y" "0x22 \<notin> set y" "0x27 \<notin> set y" "0x2F \<notin> set y"
    and trig: "0x26 \<notin> set y" "0x3A \<notin> set y" "0x3D \<notin> set y" "0x28 \<notin> set y" "0x40 \<notin> set y"
    and tr: "trim y = y" and len: "length y \<le> 2000"
  shows "sanitizeInput y = y"
proof -
  have 1: "stripControl y = y" using ctl by (simp add: stripControl_filter list_all_iff)
  have 2: "stripDangerous y = y" using raw trig by (intro stripDangerous_id)
  have 3: "encodeEntities y = y" using raw trig by (intro encodeEntities_id)
  have 4: "stripTags y = y" using raw by (intro stripTags_id)
  show ?thesis using len by (simp add: sanitizeInput_def 1 2 3 4 tr)
qed

subsection \<open>Idempotence\<close>

text \<open>
  Claim C2 says that \<open>sanitizeInput (sanitizeInput x) = sanitizeInput x\<close> for every
  string \<open>x\<close>, and in particular that a second pass neither re-encodes \<open>&\<close> nor
  strips the entities \<open>&#x27;\<close> and \<open>&#x2F;\<close> that the first pass produced. Both
  fail: the input \<open>&\<close> gives \<open>&amp;\<close>, which a second pass turns into
  \<open>&amp;amp;\<close>; an apostrophe gives \<open>&#x27;\<close>, which a second pass removes as a
  hexadecimal entity, leaving the empty string.
\<close>

theorem sanitize_twice_differs:
  "sanitizeInput (js ''&'') = js ''&amp;''
   \<and> sanitizeInput (sanitizeInput (js ''&'')) = js ''&amp;amp;''
   \<and> sanitizeInput (sanitizeInput (js ''&'')) \<noteq> sanitizeInput (js ''&'')
   \<and> sanitizeInput [0x27] = js ''&#x27;''
   \<and> sanitizeInput (sanitizeInput [0x27]) = []
   \<and> sanitizeInput (sanitizeInput [0x27]) \<noteq> sanitizeInput [0x27]"
  by code_simp

text \<open>
  Claim C2 as amended. A second pass leaves a sanitized value \<open>y = sanitizeInput x\<close> as
  it is whenever \<open>y\<close> contains no \<open>&\<close> (so no entity), no dangerous pattern matches
  in \<open>y\<close> (removing matches from \<open>y\<close> changes nothing; a removal in the first pass
  can join the text around it into a new match), and \<open>y\<close> has no white space at its
  ends (the cut at 2000 code units can leave some at the end).
\<close>

theorem sanitize_idempotent_without_entities:
  assumes "0x26 \<notin> set (sanitizeInput x)"
    and "stripDangerous (sanitizeInput x) = sanitizeInput x"
    and "trim (sanitizeInput x) = sanitizeInput x"
  shows "sanitizeInput (sanitizeInput x) = sanitizeInput x"
proof -
  let ?y = "sanitizeInput x"
  have 1: "stripControl ?y = ?y"
    using sanitizeInput_output(6)[of x] by (simp add: stripControl_filter list_all_iff)
  have 3: "encodeEntities ?y = ?y"
    using assms(1) sanitizeInput_output(1-5)[of x] by (intro encodeEntities_id)
  have 4: "stripTags ?y = ?y"
    using sanitizeInput_output(1)[of x] by (intro stripTags_id)
  have 5: "take 2000 ?y = ?y"
    using sanitizeInput_output(7)[of x] by simp
  have "sanitizeInput ?y = (if ?y = [] then [] else take 2000 (trim (stripTags (encodeEntities (stripDangerous (stripControl ?y))))))"
    by (rule sanitizeInput_def)
  also have "\<dots> = (if ?y = [] then [] else ?y)"
    by (simp only: 1 assms(2) 3 4 assms(3) 5)
  also have "\<dots> = ?y" by simp
  finally show ?thesis .
qed

theorem sanitize_idempotent_without_entities_witness:
  "0x26 \<notin> set (sanitizeInput (js '' <script>x</script> Hi there ''))
   \<and> stripDangerous (sanitizeInput (js '' <script>x</script> Hi there ''))
       = sanitizeInput (js '' <script>x</script> Hi there '')
   \<and> trim (sanitizeInput (js '' <script>x</script> Hi there ''))
       = sanitizeInput (js '' <script>x</script> Hi there '')
   \<and> sanitizeInput (js '' <script>x</script> Hi there '') = js ''Hi there''
   \<and> sanitizeInput (sanitizeInput (js '' <script>x</script> Hi there ''))
       = sanitizeInput (js '' <script>x</script> Hi there '')"
proof -
  have y: "sanitizeInput (js '' <script>x</script> Hi there '') = js ''Hi there''"
    by code_simp
  have h1: "0x26 \<notin> set (sanitizeInput (js '' <script>x</script> Hi there ''))"
    unfolding y by (simp add: js_def)
  have h2: "stripDangerous (sanitizeInput (js '' <script>x</script> Hi there ''))
       = sanitizeInput (js '' <script>x</script> Hi there '')"
    unfolding y by code_simp
  have h3: "trim (sanitizeInput (js '' <script>x</script> Hi there ''))
       = sanitizeInput (js '' <script>x</script> Hi there '')"
    unfolding y by code_simp
  from sanitize_idempotent_without_entities[OF h1 h2 h3] h1 h2 h3 y
  show ?thesis by blast
qed

subsection \<open>An injected script\<close>

text \<open>
  Claim C6. \<open>sanitizeInput\<close> applied to \<open><script>alert(1)</script>Hello\<close> yields
  \<open>Hello\<close>: a value without the substring \<open><script>\<close> and without a raw \<open><\<close>
  or \<open>>\<close>.
\<close>

theorem sanitize_removes_script:
  "sanitizeInput (js ''<script>alert(1)</script>Hello'') = js ''Hello''
   \<and> \<not> includes' (sanitizeInput (js ''<script>alert(1)</script>Hello'')) (js ''<script>'')
   \<and> 0x3C \<notin> set (sanitizeInput (js ''<script>alert(1)</script>Hello''))
   \<and> 0x3E \<notin> set (sanitizeInput (js ''<script>alert(1)</script>Hello''))"
proof -
  have y: "sanitizeInput (js ''<script>alert(1)</script>Hello'') = js ''Hello''"
    by code_simp
  have "\<not> includes' (js ''Hello'') (js ''<script>'')" by code_simp
  with y show ?thesis
    using sanitizeInput_output(1,2)[of "js ''<script>alert(1)</script>Hello''"] by simp
qed

section \<open>Email validation: proofs\<close>

lemma rmatch_minLen: "s' \<in> set (rmatch r s) \<Longrightarrow> length s' + minLen r \<le> length s"
proof (induction r s arbitrary: s' rule: rmatch.induct)
  case (1 s)
  then show ?case by simp
next
  case (2 q s)
  show ?case
  proof (cases s)
    case Nil
    with "2.prems" show ?thesis by simp
  next
    case (Cons c cs)
    with "2.prems" have "s' = cs" by (simp split: if_splits)
    with Cons show ?thesis by simp
  qed
next
  case (3 a b s)
  from "3.prems" obtain s1 where s1: "s1 \<in> set (rmatch a s)" and s': "s' \<in> set (rmatch b s1)"
    by auto
  from "3.IH"(1)[OF s1] "3.IH"(2)[OF s1 s'] show ?case by simp
next
  case (4 a s)
  from rmatch_length[OF "4.prems"] show ?case by simp
next
  case (5 a s)
  from rmatch_length[OF "5.prems"] show ?case by simp
next
  case (6 a s)
  from rmatch_length[OF "6.prems"] show ?case by simp
qed

lemma testAnchored_minLen: "testAnchored r s \<Longrightarrow> minLen r \<le> length s"
  unfolding testAnchored_def by (drule rmatch_minLen) simp

lemma minLen_emailRegex: "minLen emailRegex = 3"
  by (simp add: emailRegex_def domainLabel_def seq_def Plus_def)

lemma includes'_single: "includes' s [c] = (c \<in> set s)"
  by (induction s) auto


text \<open>
  What \<open>validateEmail\<close> accepts: no \<open>+\<close>, no \<open>..\<close>, a match of the pattern (which takes
  at least three code units) and at most 255 code units. It has no lower bound of its
  own beyond the pattern's.
\<close>

lemma validateEmail_policy:
  assumes "validateEmail x"
  shows "0x2B \<notin> set x \<and> \<not> includes' x (js ''..'') \<and> testAnchored emailRegex x
         \<and> 3 \<le> length x \<and> length x \<le> 255"
proof -
  have plus: "js ''+'' = [0x2B]" by (simp add: js_def)
  from assms have t: "testAnchored emailRegex x" and l: "length x \<le> 255"
    and i: "\<not> includes' x (js ''+'')" "\<not> includes' x (js ''..'')"
    by (auto simp: validateEmail_def MAX_EMAIL_LENGTH_def split: if_splits)
  from testAnchored_minLen[OF t] have "3 \<le> length x" by (simp add: minLen_emailRegex)
  moreover from i(1) have "0x2B \<notin> set x" by (simp add: plus includes'_single)
  ultimately show ?thesis using t l i by simp
qed

text \<open>
  The \<open>email\<close> field of the schema accepts a value exactly when zod's format test
  accepts it and its length is between 5 and 255.
\<close>

lemma contactFormSchema_email_accepts:
  "contactFormSchema_email zodEmail (Some x) = [] \<longleftrightarrow> zodEmail x \<and> 5 \<le> length x \<and> length x \<le> 255"
  by (auto simp: contactFormSchema_email_def)
subsection \<open>Email policy\<close>


end
